theory Spec2Isabelle
  imports Complex_Main "HOL-Library.Word"
begin

section \<open>The procedural sphere mesh of \<^verbatim>\<open>src/dawn/samples/Sphere.cpp\<close>\<close>

text \<open>
  \<^verbatim>\<open>Sphere::create\<close> computes with C++ \<^verbatim>\<open>float\<close>, with \<^verbatim>\<open>std::cos\<close>, \<^verbatim>\<open>std::sin\<close>,
  \<^verbatim>\<open>std::sqrt\<close> and with \<^verbatim>\<open>std::mt19937\<close> under a \<^verbatim>\<open>std::uniform_real_distribution\<close>.
  None of these is code of the repository: they belong to the compiler, the C library and
  the C++ standard library.  The embedding therefore takes them as a parameter, a record of
  operations over a type \<open>'f\<close> of float values and a type \<open>'r\<close> of engine states.  Every
  float operation of the source is one application of a field of that record, in the
  grouping that C++ gives the expression.

  What is proved about the shape of the mesh (lengths, seam, poles, layout, indices) holds
  for every such record.  What is proved about values holds for IEEE 754 binary32, defined
  further down, where every operation rounds once to binary32 (no excess precision, no
  contraction into a fused multiply-add); cosine, sine, engine and distribution stay
  parameters there.
\<close>

subsection \<open>Floats and the random engine, as the platform provides them\<close>

record ('f, 'r) platform =
  f_of_int :: "int \<Rightarrow> 'f"                \<comment> \<open>\<^verbatim>\<open>static_cast<float>(int)\<close>\<close>
  f_add :: "'f \<Rightarrow> 'f \<Rightarrow> 'f"
  f_sub :: "'f \<Rightarrow> 'f \<Rightarrow> 'f"
  f_mul :: "'f \<Rightarrow> 'f \<Rightarrow> 'f"
  f_div :: "'f \<Rightarrow> 'f \<Rightarrow> 'f"
  f_neg :: "'f \<Rightarrow> 'f"                     \<comment> \<open>unary minus\<close>
  f_gt :: "'f \<Rightarrow> 'f \<Rightarrow> bool"
  f_sqrt :: "'f \<Rightarrow> 'f"
  f_cos :: "'f \<Rightarrow> 'f"
  f_sin :: "'f \<Rightarrow> 'f"
  f_zero :: "'f"                          \<comment> \<open>the literal \<^verbatim>\<open>0.0f\<close>\<close>
  f_half :: "'f"                          \<comment> \<open>the literal \<^verbatim>\<open>0.5f\<close>\<close>
  f_one :: "'f"                           \<comment> \<open>the literal \<^verbatim>\<open>1.0f\<close>\<close>
  f_two :: "'f"                           \<comment> \<open>the literal \<^verbatim>\<open>2.0f\<close>\<close>
  f_eps :: "'f"                           \<comment> \<open>the literal \<^verbatim>\<open>1e-8f\<close>\<close>
  f_pi :: "'f"                            \<comment> \<open>\<^verbatim>\<open>static_cast<float>(M_PI)\<close>\<close>
  mt19937 :: "nat \<Rightarrow> 'r"                 \<comment> \<open>the engine constructed from a seed\<close>
  uniform_real :: "'f \<Rightarrow> 'f \<Rightarrow> 'r \<Rightarrow> 'f \<times> 'r"
    \<comment> \<open>one draw of \<^verbatim>\<open>uniform_real_distribution<float>(a, b)\<close>: the value and the engine after it\<close>

type_synonym 'f vec3 = "'f \<times> 'f \<times> 'f"

subsection \<open>The mesh and the locals of \<^verbatim>\<open>Sphere::create\<close>\<close>

record 'f SphereMesh =
  vertices :: "'f list"
  indices :: "16 word list"

record ('f, 'r) locals =
  l_vertices :: "'f list"
  l_firstVertex :: "'f vec3"
  l_vertex :: "'f vec3"
  l_normal :: "'f vec3"
  l_index :: int
  l_grid :: "int list list"
  l_rng :: 'r
  l_verticesRow :: "int list"

datatype error = SignedOverflow
  \<comment> \<open>an \<^verbatim>\<open>int\<close> expression whose value is not an \<^verbatim>\<open>int\<close>: undefined behaviour in C++\<close>

subsection \<open>The vector helpers\<close>

definition vec3_copy :: "'f vec3 \<Rightarrow> 'f vec3" where
  "vec3_copy src = (case src of (s0, s1, s2) \<Rightarrow> (s0, s1, s2))"

definition vec3_normalize :: "('f, 'r) platform \<Rightarrow> 'f vec3 \<Rightarrow> 'f vec3" where
  "vec3_normalize P v = (case v of (v0, v1, v2) \<Rightarrow>
     (let len = f_sqrt P (f_add P (f_add P (f_mul P v0 v0) (f_mul P v1 v1)) (f_mul P v2 v2))
      in if f_gt P len (f_eps P)
         then (f_div P v0 len, f_div P v1 len, f_div P v2 len)
         else (v0, v1, v2)))"

subsection \<open>One column of one ring\<close>

text \<open>Lines 56 to 68: where the vertex of column \<open>ix\<close> of ring \<open>iy\<close> is put.\<close>

definition place ::
  "('f, 'r) platform \<Rightarrow> 'f \<Rightarrow> 'f \<Rightarrow> nat \<Rightarrow> nat \<Rightarrow> nat \<Rightarrow> 'f \<Rightarrow> 'f \<Rightarrow> nat
    \<Rightarrow> ('f, 'r) locals \<Rightarrow> ('f, 'r) locals" where
  "place P radius randomness widthSegments heightSegments iy v u ix s =
     (if ix = widthSegments then s\<lparr>l_vertex := vec3_copy (l_firstVertex s)\<rparr>
      else if ix = 0 \<or> (iy \<noteq> 0 \<and> iy \<noteq> heightSegments) then
        (let (d, g) = uniform_real P (f_neg P (f_half P)) (f_half P) (l_rng s);
             rr = f_add P radius (f_mul P (f_mul P (f_mul P d (f_two P)) randomness) radius);
             x = f_mul P (f_mul P (f_neg P rr)
                    (f_cos P (f_mul P (f_mul P u (f_pi P)) (f_two P))))
                    (f_sin P (f_mul P v (f_pi P)));
             y = f_mul P rr (f_cos P (f_mul P v (f_pi P)));
             z = f_mul P (f_mul P rr
                    (f_sin P (f_mul P (f_mul P u (f_pi P)) (f_two P))))
                    (f_sin P (f_mul P v (f_pi P)));
             s' = s\<lparr>l_rng := g, l_vertex := (x, y, z)\<rparr>
         in if ix = 0 then s'\<lparr>l_firstVertex := vec3_copy (l_vertex s')\<rparr> else s')
      else s)"

text \<open>Lines 70 to 84: the nine floats pushed for a vertex whose position is \<open>p\<close> and
  whose normal is \<open>n\<close>.\<close>

definition vertex_record :: "('f, 'r) platform \<Rightarrow> 'f \<Rightarrow> 'f \<Rightarrow> 'f \<Rightarrow> 'f vec3 \<Rightarrow> 'f vec3 \<Rightarrow> 'f list" where
  "vertex_record P v uOffset u p n = (case (p, n) of ((p0, p1, p2), (n0, n1, n2)) \<Rightarrow>
     [p0, p1, p2, f_one P, n0, n1, n2, f_add P u uOffset, f_sub P (f_one P) v])"

text \<open>Lines 70 to 86.\<close>

definition emit :: "('f, 'r) platform \<Rightarrow> 'f \<Rightarrow> 'f \<Rightarrow> 'f \<Rightarrow> ('f, 'r) locals \<Rightarrow> ('f, 'r) locals" where
  "emit P v uOffset u s =
     (let n = vec3_normalize P (l_vertex s)
      in s\<lparr>l_normal := n,
           l_vertices := l_vertices s @ vertex_record P v uOffset u (l_vertex s) n,
           l_verticesRow := l_verticesRow s @ [l_index s],
           l_index := l_index s + 1\<rparr>)"

text \<open>The body of the loop over \<open>ix\<close>, lines 54 to 86.\<close>

definition column ::
  "('f, 'r) platform \<Rightarrow> 'f \<Rightarrow> 'f \<Rightarrow> nat \<Rightarrow> nat \<Rightarrow> nat \<Rightarrow> 'f \<Rightarrow> 'f \<Rightarrow> nat
    \<Rightarrow> ('f, 'r) locals \<Rightarrow> ('f, 'r) locals" where
  "column P radius randomness widthSegments heightSegments iy v uOffset ix s =
     (let u = f_div P (f_of_int P (int ix)) (f_of_int P (int widthSegments))
      in emit P v uOffset u (place P radius randomness widthSegments heightSegments iy v u ix s))"

subsection \<open>One ring, and all rings\<close>

definition ring_v :: "('f, 'r) platform \<Rightarrow> nat \<Rightarrow> nat \<Rightarrow> 'f" where
  "ring_v P heightSegments iy = f_div P (f_of_int P (int iy)) (f_of_int P (int heightSegments))"

definition ring_uOffset :: "('f, 'r) platform \<Rightarrow> nat \<Rightarrow> nat \<Rightarrow> nat \<Rightarrow> 'f" where
  "ring_uOffset P widthSegments heightSegments iy =
     (if iy = 0 then f_div P (f_half P) (f_of_int P (int widthSegments))
      else if iy = heightSegments then f_div P (f_neg P (f_half P)) (f_of_int P (int widthSegments))
      else f_zero P)"

text \<open>The body of the loop over \<open>iy\<close>, lines 42 to 90.\<close>

definition ring ::
  "('f, 'r) platform \<Rightarrow> 'f \<Rightarrow> 'f \<Rightarrow> nat \<Rightarrow> nat \<Rightarrow> nat \<Rightarrow> ('f, 'r) locals \<Rightarrow> ('f, 'r) locals" where
  "ring P radius randomness widthSegments heightSegments iy s =
     (let v = ring_v P heightSegments iy;
          uOffset = ring_uOffset P widthSegments heightSegments iy;
          s' = fold (column P radius randomness widthSegments heightSegments iy v uOffset)
                 [0..<Suc widthSegments] (s\<lparr>l_verticesRow := []\<rparr>)
      in s'\<lparr>l_grid := l_grid s' @ [l_verticesRow s']\<rparr>)"

text \<open>Lines 24 to 38: the locals as their declarations initialise them.\<close>

definition init_locals :: "('f, 'r) platform \<Rightarrow> ('f, 'r) locals" where
  "init_locals P =
     \<lparr>l_vertices = [],
      l_firstVertex = (f_zero P, f_zero P, f_zero P),
      l_vertex = (f_zero P, f_zero P, f_zero P),
      l_normal = (f_zero P, f_zero P, f_zero P),
      l_index = 0,
      l_grid = [],
      l_rng = mt19937 P 12345,
      l_verticesRow = []\<rparr>"

definition generate ::
  "('f, 'r) platform \<Rightarrow> 'f \<Rightarrow> 'f \<Rightarrow> nat \<Rightarrow> nat \<Rightarrow> ('f, 'r) locals \<Rightarrow> ('f, 'r) locals" where
  "generate P radius randomness widthSegments heightSegments s =
     fold (ring P radius randomness widthSegments heightSegments) [0..<Suc heightSegments] s"

subsection \<open>The triangles\<close>

text \<open>The body of the inner loop of lines 94 to 112; \<open>word_of_int\<close> is the cast
  \<^verbatim>\<open>static_cast<uint16_t>\<close>.\<close>

definition quad :: "int list list \<Rightarrow> nat \<Rightarrow> nat \<Rightarrow> nat \<Rightarrow> 16 word list \<Rightarrow> 16 word list" where
  "quad g heightSegments iy ix ind =
     (let a = g ! iy ! (ix + 1);
          b = g ! iy ! ix;
          c = g ! (iy + 1) ! ix;
          d = g ! (iy + 1) ! (ix + 1);
          ind1 = (if iy \<noteq> 0 then ind @ [word_of_int a, word_of_int b, word_of_int d] else ind)
      in if iy \<noteq> heightSegments - 1
         then ind1 @ [word_of_int b, word_of_int c, word_of_int d] else ind1)"

definition triangles :: "int list list \<Rightarrow> nat \<Rightarrow> nat \<Rightarrow> 16 word list" where
  "triangles g widthSegments heightSegments =
     fold (\<lambda>iy. fold (quad g heightSegments iy) [0..<widthSegments]) [0..<heightSegments] []"

subsection \<open>The arithmetic on \<^verbatim>\<open>int\<close>\<close>

definition INT_MAX :: int where
  "INT_MAX = 2147483647"

definition INT_MIN :: int where
  "INT_MIN = - 2147483648"

definition int_add :: "int \<Rightarrow> int \<Rightarrow> error + int" where
  "int_add a b = (if INT_MIN \<le> a + b \<and> a + b \<le> INT_MAX then Inr (a + b) else Inl SignedOverflow)"

definition int_mul :: "int \<Rightarrow> int \<Rightarrow> error + int" where
  "int_mul a b = (if INT_MIN \<le> a * b \<and> a * b \<le> INT_MAX then Inr (a * b) else Inl SignedOverflow)"

text \<open>Line 26: \<^verbatim>\<open>(widthSegments + 1) * (heightSegments + 1) * 8\<close>, the argument of
  \<^verbatim>\<open>vertices.reserve\<close>, evaluated in \<^verbatim>\<open>int\<close> from left to right.\<close>

definition reserve_count :: "int \<Rightarrow> int \<Rightarrow> error + int" where
  "reserve_count widthSegments heightSegments =
     (case int_add widthSegments 1 of Inl e \<Rightarrow> Inl e | Inr a \<Rightarrow>
       (case int_add heightSegments 1 of Inl e \<Rightarrow> Inl e | Inr b \<Rightarrow>
         (case int_mul a b of Inl e \<Rightarrow> Inl e | Inr c \<Rightarrow> int_mul c 8)))"

subsection \<open>\<^verbatim>\<open>Sphere::create\<close>\<close>

text \<open>The segment counts arrive as 32-bit \<^verbatim>\<open>int\<close>s, read with \<open>sint\<close>.  After the
  clamping of lines 21 and 22 they are at least 3 and 2, and the loops count in \<open>nat\<close>.\<close>

definition clampW :: "32 word \<Rightarrow> int" where
  "clampW widthSegments = max 3 (sint widthSegments)"

definition clampH :: "32 word \<Rightarrow> int" where
  "clampH heightSegments = max 2 (sint heightSegments)"

definition create ::
  "('f, 'r) platform \<Rightarrow> 'f \<Rightarrow> 32 word \<Rightarrow> 32 word \<Rightarrow> 'f \<Rightarrow> error + 'f SphereMesh" where
  "create P radius widthSegments heightSegments randomness =
     (let widthSegments = clampW widthSegments;
          heightSegments = clampH heightSegments
      in case reserve_count widthSegments heightSegments of
           Inl e \<Rightarrow> Inl e
         | Inr _ \<Rightarrow>
             (let s = generate P radius randomness (nat widthSegments) (nat heightSegments)
                        (init_locals P)
              in Inr \<lparr>vertices = l_vertices s,
                      indices = triangles (l_grid s) (nat widthSegments) (nat heightSegments)\<rparr>))"

subsection \<open>Reading the mesh\<close>

text \<open>Vertex number \<open>k\<close> occupies the floats \<open>9 * k\<close> to \<open>9 * k + 8\<close> of the vertex array;
  the vertex of column \<open>ix\<close> of ring \<open>iy\<close> has the number that the source records in
  \<^verbatim>\<open>grid[iy][ix]\<close>.\<close>

definition vertex_index :: "nat \<Rightarrow> nat \<Rightarrow> nat \<Rightarrow> nat" where
  "vertex_index widthSegments iy ix = iy * (widthSegments + 1) + ix"

definition float_at :: "'f list \<Rightarrow> nat \<Rightarrow> nat \<Rightarrow> 'f" where
  "float_at vs k j = vs ! (9 * k + j)"

definition position :: "'f list \<Rightarrow> nat \<Rightarrow> 'f vec3" where
  "position vs k = (float_at vs k 0, float_at vs k 1, float_at vs k 2)"

definition normal_of :: "'f list \<Rightarrow> nat \<Rightarrow> 'f vec3" where
  "normal_of vs k = (float_at vs k 4, float_at vs k 5, float_at vs k 6)"

subsection \<open>What the loops push, vertex by vertex\<close>

text \<open>The nine floats that \<open>column\<close> appends when it runs from \<open>s\<close>, the lists of them that
  a run of columns and a run of rings append.  They serve the proofs only: the vertex array
  is their concatenation.\<close>

definition pushed ::
  "('f, 'r) platform \<Rightarrow> 'f \<Rightarrow> 'f \<Rightarrow> nat \<Rightarrow> nat \<Rightarrow> nat \<Rightarrow> 'f \<Rightarrow> 'f \<Rightarrow> nat
    \<Rightarrow> ('f, 'r) locals \<Rightarrow> 'f list" where
  "pushed P radius randomness widthSegments heightSegments iy v uOffset ix s =
     (let u = f_div P (f_of_int P (int ix)) (f_of_int P (int widthSegments));
          s1 = place P radius randomness widthSegments heightSegments iy v u ix s
      in vertex_record P v uOffset u (l_vertex s1) (vec3_normalize P (l_vertex s1)))"

fun column_records ::
  "('f, 'r) platform \<Rightarrow> 'f \<Rightarrow> 'f \<Rightarrow> nat \<Rightarrow> nat \<Rightarrow> nat \<Rightarrow> 'f \<Rightarrow> 'f \<Rightarrow> nat list
    \<Rightarrow> ('f, 'r) locals \<Rightarrow> 'f list list" where
  "column_records P radius randomness widthSegments heightSegments iy v uOffset [] s = []"
| "column_records P radius randomness widthSegments heightSegments iy v uOffset (ix # ixs) s =
     pushed P radius randomness widthSegments heightSegments iy v uOffset ix s
     # column_records P radius randomness widthSegments heightSegments iy v uOffset ixs
         (column P radius randomness widthSegments heightSegments iy v uOffset ix s)"

definition ring_records ::
  "('f, 'r) platform \<Rightarrow> 'f \<Rightarrow> 'f \<Rightarrow> nat \<Rightarrow> nat \<Rightarrow> nat \<Rightarrow> ('f, 'r) locals \<Rightarrow> 'f list list" where
  "ring_records P radius randomness widthSegments heightSegments iy s =
     column_records P radius randomness widthSegments heightSegments iy
       (ring_v P heightSegments iy) (ring_uOffset P widthSegments heightSegments iy)
       [0..<Suc widthSegments] (s\<lparr>l_verticesRow := []\<rparr>)"

fun mesh_records ::
  "('f, 'r) platform \<Rightarrow> 'f \<Rightarrow> 'f \<Rightarrow> nat \<Rightarrow> nat \<Rightarrow> nat list \<Rightarrow> ('f, 'r) locals
    \<Rightarrow> 'f list list list" where
  "mesh_records P radius randomness widthSegments heightSegments [] s = []"
| "mesh_records P radius randomness widthSegments heightSegments (iy # iys) s =
     ring_records P radius randomness widthSegments heightSegments iy s
     # mesh_records P radius randomness widthSegments heightSegments iys
         (ring P radius randomness widthSegments heightSegments iy s)"

subsection \<open>The values behind the indices\<close>

text \<open>The \<^verbatim>\<open>int\<close> values \<open>a\<close>, \<open>b\<close>, \<open>c\<close>, \<open>d\<close> that the index loop reads from the grid, in
  the order in which it pushes their casts.\<close>

definition quad_values :: "int list list \<Rightarrow> nat \<Rightarrow> nat \<Rightarrow> nat \<Rightarrow> int list" where
  "quad_values g heightSegments iy ix =
     (let a = g ! iy ! (ix + 1);
          b = g ! iy ! ix;
          c = g ! (iy + 1) ! ix;
          d = g ! (iy + 1) ! (ix + 1)
      in (if iy \<noteq> 0 then [a, b, d] else [])
         @ (if iy \<noteq> heightSegments - 1 then [b, c, d] else []))"

definition triangle_values :: "int list list \<Rightarrow> nat \<Rightarrow> nat \<Rightarrow> int list" where
  "triangle_values g widthSegments heightSegments =
     concat (map (\<lambda>iy. concat (map (quad_values g heightSegments iy) [0..<widthSegments]))
       [0..<heightSegments])"

text \<open>The grid that the vertex loops leave behind.\<close>

definition grid_of :: "nat \<Rightarrow> nat \<Rightarrow> int list list" where
  "grid_of widthSegments heightSegments =
     map (\<lambda>iy. map (\<lambda>ix. int (vertex_index widthSegments iy ix)) [0..<Suc widthSegments])
       [0..<Suc heightSegments]"

text \<open>The inputs on which every \<^verbatim>\<open>int\<close> expression of \<^verbatim>\<open>Sphere::create\<close> has a value.\<close>

definition fits :: "32 word \<Rightarrow> 32 word \<Rightarrow> bool" where
  "fits widthSegments heightSegments \<longleftrightarrow>
     (clampW widthSegments + 1) * (clampH heightSegments + 1) * 8 \<le> INT_MAX"

subsection \<open>Successive invocations\<close>

text \<open>An invocation finds in its locals whatever was there before, for instance what an
  earlier invocation left.  Lines 24 to 38 declare the locals with initialisers, the engine
  among them: \<^verbatim>\<open>std::mt19937 rng(12345)\<close>.\<close>

definition declare_locals :: "('f, 'r) platform \<Rightarrow> ('f, 'r) locals \<Rightarrow> ('f, 'r) locals" where
  "declare_locals P s =
     s\<lparr>l_vertices := [],
       l_firstVertex := (f_zero P, f_zero P, f_zero P),
       l_vertex := (f_zero P, f_zero P, f_zero P),
       l_normal := (f_zero P, f_zero P, f_zero P),
       l_index := 0,
       l_grid := [],
       l_rng := mt19937 P 12345,
       l_verticesRow := []\<rparr>"

text \<open>\<^verbatim>\<open>Sphere::create\<close> run on given storage: its result, and the locals as it leaves them.\<close>

definition create_on ::
  "('f, 'r) platform \<Rightarrow> ('f, 'r) locals \<Rightarrow> 'f \<Rightarrow> 32 word \<Rightarrow> 32 word \<Rightarrow> 'f
    \<Rightarrow> (error + 'f SphereMesh) \<times> ('f, 'r) locals" where
  "create_on P s0 radius widthSegments heightSegments randomness =
     (let widthSegments = clampW widthSegments;
          heightSegments = clampH heightSegments
      in case reserve_count widthSegments heightSegments of
           Inl e \<Rightarrow> (Inl e, s0)
         | Inr _ \<Rightarrow>
             (let s = generate P radius randomness (nat widthSegments) (nat heightSegments)
                        (declare_locals P s0)
              in (Inr \<lparr>vertices = l_vertices s,
                       indices = triangles (l_grid s) (nat widthSegments) (nat heightSegments)\<rparr>,
                  s)))"

text \<open>A run of invocations, one after the other on the same storage, with their results.\<close>

fun run_calls ::
  "('f, 'r) platform \<Rightarrow> ('f, 'r) locals \<Rightarrow> ('f \<times> 32 word \<times> 32 word \<times> 'f) list
    \<Rightarrow> (error + 'f SphereMesh) list" where
  "run_calls P s [] = []"
| "run_calls P s ((radius, widthSegments, heightSegments, randomness) # calls) =
     (let (res, s') = create_on P s radius widthSegments heightSegments randomness
      in res # run_calls P s' calls)"

subsection \<open>The position in one pushed record\<close>

definition rec_position :: "'f list \<Rightarrow> 'f vec3" where
  "rec_position r = (r ! 0, r ! 1, r ! 2)"

section \<open>IEEE 754 binary32\<close>

text \<open>
  On the platforms the sample is built for, \<^verbatim>\<open>float\<close> is IEEE 754 binary32 and every
  operation rounds once, to nearest with ties to even.  A float is its 32 bits; its fields
  are read with \<open>div\<close> and \<open>mod\<close>.  A result that is not a number is always the same quiet
  NaN: payloads are not modelled.
\<close>

type_synonym f32 = "32 word"

definition pow2 :: "int \<Rightarrow> real" where
  "pow2 e = (if 0 \<le> e then 2 ^ nat e else 1 / 2 ^ nat (- e))"

definition f32_sign :: "f32 \<Rightarrow> bool" where
  "f32_sign x \<longleftrightarrow> 2 ^ 31 \<le> unat x"

definition f32_expo :: "f32 \<Rightarrow> nat" where
  "f32_expo x = (unat x div 2 ^ 23) mod 256"

definition f32_frac :: "f32 \<Rightarrow> nat" where
  "f32_frac x = unat x mod 2 ^ 23"

definition is_nan :: "f32 \<Rightarrow> bool" where
  "is_nan x \<longleftrightarrow> f32_expo x = 255 \<and> f32_frac x \<noteq> 0"

definition is_inf :: "f32 \<Rightarrow> bool" where
  "is_inf x \<longleftrightarrow> f32_expo x = 255 \<and> f32_frac x = 0"

definition is_finite :: "f32 \<Rightarrow> bool" where
  "is_finite x \<longleftrightarrow> f32_expo x < 255"

definition is_zero :: "f32 \<Rightarrow> bool" where
  "is_zero x \<longleftrightarrow> f32_expo x = 0 \<and> f32_frac x = 0"

definition f32_mag :: "f32 \<Rightarrow> real" where
  "f32_mag x = (if f32_expo x = 0 then real (f32_frac x) * pow2 (- 149)
                else real (2 ^ 23 + f32_frac x) * pow2 (int (f32_expo x) - 150))"

definition valof :: "f32 \<Rightarrow> real" where
  "valof x = (if f32_sign x then - f32_mag x else f32_mag x)"

definition pack :: "bool \<Rightarrow> nat \<Rightarrow> nat \<Rightarrow> f32" where
  "pack s e m = word_of_nat ((if s then 2 ^ 31 else 0) + e * 2 ^ 23 + m)"

definition f32_nan :: f32 where
  "f32_nan = pack False 255 (2 ^ 22)"

definition f32_infinity :: "bool \<Rightarrow> f32" where
  "f32_infinity s = pack s 255 0"

definition round_even :: "real \<Rightarrow> nat" where
  "round_even t = (let f = nat \<lfloor>t\<rfloor>; r = t - real f
                   in if r < 1 / 2 then f else if 1 / 2 < r then f + 1
                      else if even f then f else f + 1)"

fun bit_length :: "nat \<Rightarrow> nat" where
  "bit_length n = (if n = 0 then 0 else Suc (bit_length (n div 2)))"

declare bit_length.simps [simp del]

definition quantum :: "real \<Rightarrow> nat" where
  "quantum a = min 254 (bit_length (nat \<lfloor>a * 2 ^ 125\<rfloor>))"

definition round_f32 :: "bool \<Rightarrow> real \<Rightarrow> f32" where
  "round_f32 s a =
     (let k = quantum a;
          m = round_even (a / pow2 (int k - 149));
          (k, m) = (if m = 2 ^ 24 then (k + 1, 2 ^ 23) else (k, m))
      in if 254 \<le> k then f32_infinity s
         else if m < 2 ^ 23 then pack s 0 m
         else pack s (k + 1) (m - 2 ^ 23))"

definition to_f32 :: "real \<Rightarrow> f32" where
  "to_f32 r = round_f32 (r < 0) \<bar>r\<bar>"

definition f32_neg :: "f32 \<Rightarrow> f32" where
  "f32_neg x = x + 0x80000000"

definition f32_add :: "f32 \<Rightarrow> f32 \<Rightarrow> f32" where
  "f32_add x y =
     (if is_nan x \<or> is_nan y then f32_nan
      else if is_inf x then (if is_inf y \<and> f32_sign x \<noteq> f32_sign y then f32_nan else x)
      else if is_inf y then y
      else if valof x + valof y = 0 then pack (f32_sign x \<and> f32_sign y) 0 0
      else to_f32 (valof x + valof y))"

definition f32_sub :: "f32 \<Rightarrow> f32 \<Rightarrow> f32" where
  "f32_sub x y = f32_add x (f32_neg y)"

definition f32_mul :: "f32 \<Rightarrow> f32 \<Rightarrow> f32" where
  "f32_mul x y =
     (if is_nan x \<or> is_nan y then f32_nan
      else if is_inf x \<or> is_inf y
      then (if is_zero x \<or> is_zero y then f32_nan else f32_infinity (f32_sign x \<noteq> f32_sign y))
      else round_f32 (f32_sign x \<noteq> f32_sign y) (f32_mag x * f32_mag y))"

definition f32_div :: "f32 \<Rightarrow> f32 \<Rightarrow> f32" where
  "f32_div x y =
     (if is_nan x \<or> is_nan y then f32_nan
      else if is_inf x then (if is_inf y then f32_nan else f32_infinity (f32_sign x \<noteq> f32_sign y))
      else if is_inf y then pack (f32_sign x \<noteq> f32_sign y) 0 0
      else if is_zero y
      then (if is_zero x then f32_nan else f32_infinity (f32_sign x \<noteq> f32_sign y))
      else round_f32 (f32_sign x \<noteq> f32_sign y) (f32_mag x / f32_mag y))"

definition f32_sqrt :: "f32 \<Rightarrow> f32" where
  "f32_sqrt x =
     (if is_nan x then f32_nan
      else if is_zero x then x
      else if f32_sign x then f32_nan
      else if is_inf x then x
      else round_f32 False (sqrt (f32_mag x)))"

definition f32_gt :: "f32 \<Rightarrow> f32 \<Rightarrow> bool" where
  "f32_gt x y \<longleftrightarrow> \<not> is_nan x \<and> \<not> is_nan y \<and> valof x > valof y"

definition f32_of_int :: "int \<Rightarrow> f32" where
  "f32_of_int i = to_f32 (of_int i)"

text \<open>The largest finite magnitude, and the floats that are finite and at most \<open>2\<^sup>j\<close> in
  magnitude.\<close>

definition FLT_MAX :: real where
  "FLT_MAX = (2 ^ 24 - 1) * 2 ^ 104"

definition fin_le :: "int \<Rightarrow> f32 \<Rightarrow> bool" where
  "fin_le j x \<longleftrightarrow> is_finite x \<and> f32_mag x \<le> pow2 j"

subsection \<open>The platform with binary32 arithmetic\<close>

text \<open>The arithmetic and the literals are fixed by IEEE 754; \<^verbatim>\<open>std::cos\<close>, \<^verbatim>\<open>std::sin\<close>, the
  engine and the distribution stay parameters.  \<^verbatim>\<open>M_PI\<close> is the \<^verbatim>\<open>double\<close>
  \<open>884279719003555 / 2\<^sup>4\<^sup>8\<close>, cast to \<^verbatim>\<open>float\<close> by line 61.\<close>

definition ieee ::
  "(f32 \<Rightarrow> f32) \<Rightarrow> (f32 \<Rightarrow> f32) \<Rightarrow> (nat \<Rightarrow> 'r) \<Rightarrow> (f32 \<Rightarrow> f32 \<Rightarrow> 'r \<Rightarrow> f32 \<times> 'r)
    \<Rightarrow> (f32, 'r) platform" where
  "ieee cosf sinf engine draw =
     \<lparr>f_of_int = f32_of_int, f_add = f32_add, f_sub = f32_sub, f_mul = f32_mul,
      f_div = f32_div, f_neg = f32_neg, f_gt = f32_gt, f_sqrt = f32_sqrt,
      f_cos = cosf, f_sin = sinf,
      f_zero = to_f32 0, f_half = to_f32 (1 / 2), f_one = to_f32 1, f_two = to_f32 2,
      f_eps = to_f32 (1 / 10 ^ 8), f_pi = to_f32 (884279719003555 / 2 ^ 48),
      mt19937 = engine, uniform_real = draw\<rparr>"

text \<open>What the claims about values need of the C library and of the distribution: finite
  results on finite arguments, and draws between \<open>-0.5\<close> and \<open>0.5\<close>.\<close>

definition libm_finite :: "(f32 \<Rightarrow> f32) \<Rightarrow> bool" where
  "libm_finite f \<longleftrightarrow> (\<forall>x. is_finite x \<longrightarrow> is_finite (f x))"

definition draws_in_range :: "(f32 \<Rightarrow> f32 \<Rightarrow> 'r \<Rightarrow> f32 \<times> 'r) \<Rightarrow> bool" where
  "draws_in_range draw \<longleftrightarrow>
     (\<forall>g. fin_le (- 1) (fst (draw (f32_neg (to_f32 (1 / 2))) (to_f32 (1 / 2)) g)))"

text \<open>A C library whose cosine and sine are correctly rounded, with the results at zero,
  infinity and NaN that Annex F of the C standard prescribes.\<close>

definition cr_cos :: "f32 \<Rightarrow> f32" where
  "cr_cos x = (if is_nan x \<or> is_inf x then f32_nan else to_f32 (cos (valof x)))"

definition cr_sin :: "f32 \<Rightarrow> f32" where
  "cr_sin x = (if is_nan x \<or> is_inf x then f32_nan
               else if is_zero x then x else to_f32 (sin (valof x)))"

text \<open>A stand-in for the engine and the distribution: the state counts the draws, which
  alternate between the first and the third quarter of the range.\<close>

definition quarter_draw :: "f32 \<Rightarrow> f32 \<Rightarrow> nat \<Rightarrow> f32 \<times> nat" where
  "quarter_draw a b g = (f32_mul (if even g then a else b) (to_f32 (1 / 2)), Suc g)"

definition ref_platform :: "(f32, nat) platform" where
  "ref_platform = ieee cr_cos cr_sin (\<lambda>seed. seed) quarter_draw"

subsection \<open>Vectors and records of zeros\<close>

definition zero3 :: "f32 vec3 \<Rightarrow> bool" where
  "zero3 v \<longleftrightarrow> (case v of (x, y, z) \<Rightarrow> is_zero x \<and> is_zero y \<and> is_zero z)"

text \<open>A pushed record whose position and normal are zeros, whose fourth float is \<^verbatim>\<open>1.0f\<close>
  and whose floats are all finite.\<close>

definition zero_record :: "f32 list \<Rightarrow> bool" where
  "zero_record r \<longleftrightarrow>
     length r = 9 \<and> is_zero (r ! 0) \<and> is_zero (r ! 1) \<and> is_zero (r ! 2) \<and> r ! 3 = to_f32 1
     \<and> is_zero (r ! 4) \<and> is_zero (r ! 5) \<and> is_zero (r ! 6) \<and> (\<forall>x\<in>set r. is_finite x)"

definition zero_locals :: "(f32, 'r) locals \<Rightarrow> bool" where
  "zero_locals s \<longleftrightarrow> zero3 (l_vertex s) \<and> zero3 (l_firstVertex s)"

subsection \<open>The scenario at radius 1, no randomness, four by two segments\<close>

text \<open>A float that is the number \<open>r\<close>; the float \<open>-0.0\<close> is the number 0.\<close>

definition f32_is :: "real \<Rightarrow> f32 \<Rightarrow> bool" where
  "f32_is r x \<longleftrightarrow> \<not> is_nan x \<and> valof x = r"

definition point_is :: "real \<times> real \<times> real \<times> real \<Rightarrow> f32 list \<Rightarrow> nat \<Rightarrow> bool" where
  "point_is p vs k = (case p of (a, b, c, d) \<Rightarrow>
     f32_is a (float_at vs k 0) \<and> f32_is b (float_at vs k 1)
     \<and> f32_is c (float_at vs k 2) \<and> f32_is d (float_at vs k 3))"

text \<open>The scenario in the words of the specification: 135 floats, 24 indices, the five
  vertices of ring 0 at \<open>(0, 1, 0, 1)\<close> and the five vertices of ring 2 at \<open>(0, -1, 0, 1)\<close>.\<close>

definition scenario_as_specified :: "(f32, 'r) platform \<Rightarrow> bool" where
  "scenario_as_specified P \<longleftrightarrow>
     (\<exists>mesh. create P (to_f32 1) 4 2 (to_f32 0) = Inr mesh
        \<and> length (vertices mesh) = 135 \<and> length (indices mesh) = 24
        \<and> (\<forall>ix\<le>4. point_is (0, 1, 0, 1) (vertices mesh) (vertex_index 4 0 ix))
        \<and> (\<forall>ix\<le>4. point_is (0, - 1, 0, 1) (vertices mesh) (vertex_index 4 2 ix)))"

section \<open>The vertex loops\<close>

text \<open>The vertex array is the concatenation of the records that the columns push, ring after
  ring.  Seam, poles and layout are properties of the records of one ring, whatever the
  locals were when the ring began.\<close>

lemma concat_nth_uniform:
  "\<forall>xs\<in>set xss. length xs = n \<Longrightarrow> i < length xss \<Longrightarrow> j < n \<Longrightarrow> concat xss ! (i * n + j) = xss ! i ! j"
proof (induction xss arbitrary: i)
  case Nil
  then show ?case by simp
next
  case (Cons xs xss)
  show ?case
  proof (cases i)
    case 0
    with Cons.prems show ?thesis by (simp add: nth_append)
  next
    case (Suc k)
    with Cons.prems have "concat xss ! (k * n + j) = xss ! k ! j"
      by (intro Cons.IH) auto
    moreover have "length xs = n" using Cons.prems by simp
    ultimately show ?thesis using Suc by (simp add: nth_append)
  qed
qed

lemma length_concat_uniform:
  "\<forall>xs\<in>set xss. length xs = n \<Longrightarrow> length (concat xss) = length xss * n"
  by (induction xss) auto

lemma vec3_copy_id [simp]: "vec3_copy v = v"
  by (cases v) (simp add: vec3_copy_def)

lemma place_first:
  "widthSegments \<noteq> 0 \<Longrightarrow>
   l_firstVertex (place P radius randomness widthSegments heightSegments iy v u 0 s)
   = l_vertex (place P radius randomness widthSegments heightSegments iy v u 0 s)"
  by (simp add: place_def Let_def split: prod.split)

lemma place_keeps_first:
  "ix \<noteq> 0 \<Longrightarrow>
   l_firstVertex (place P radius randomness widthSegments heightSegments iy v u ix s) = l_firstVertex s"
  by (simp add: place_def Let_def split: prod.split)

lemma place_last:
  "l_vertex (place P radius randomness widthSegments heightSegments iy v u widthSegments s) = l_firstVertex s"
  by (simp add: place_def)

lemma place_pole:
  "iy = 0 \<or> iy = heightSegments \<Longrightarrow> ix \<noteq> 0 \<Longrightarrow> ix \<noteq> widthSegments \<Longrightarrow>
   place P radius randomness widthSegments heightSegments iy v u ix s = s"
  by (auto simp add: place_def)

lemma place_others [simp]:
  "l_vertices (place P radius randomness widthSegments heightSegments iy v u ix s) = l_vertices s"
  "l_index (place P radius randomness widthSegments heightSegments iy v u ix s) = l_index s"
  "l_grid (place P radius randomness widthSegments heightSegments iy v u ix s) = l_grid s"
  "l_verticesRow (place P radius randomness widthSegments heightSegments iy v u ix s) = l_verticesRow s"
  by (simp_all add: place_def Let_def split: prod.split)

lemma emit_fields [simp]:
  "l_vertex (emit P v uOffset u s) = l_vertex s"
  "l_firstVertex (emit P v uOffset u s) = l_firstVertex s"
  "l_rng (emit P v uOffset u s) = l_rng s"
  "l_grid (emit P v uOffset u s) = l_grid s"
  "l_index (emit P v uOffset u s) = l_index s + 1"
  "l_verticesRow (emit P v uOffset u s) = l_verticesRow s @ [l_index s]"
  "l_vertices (emit P v uOffset u s) =
     l_vertices s @ vertex_record P v uOffset u (l_vertex s) (vec3_normalize P (l_vertex s))"
  by (simp_all add: emit_def Let_def)

lemma length_vertex_record [simp]: "length (vertex_record P v uOffset u p n) = 9"
  by (cases p; cases n) (simp add: vertex_record_def)

lemma vertices_column:
  "l_vertices (column P radius randomness w h iy v uOffset ix s)
   = l_vertices s @ pushed P radius randomness w h iy v uOffset ix s"
  by (simp add: column_def pushed_def Let_def)

lemma length_pushed [simp]: "length (pushed P radius randomness w h iy v uOffset ix s) = 9"
  by (simp add: pushed_def Let_def)

lemma vertices_columns:
  "l_vertices (fold (column P radius randomness w h iy v uOffset) ixs s)
   = l_vertices s @ concat (column_records P radius randomness w h iy v uOffset ixs s)"
  by (induction ixs arbitrary: s) (simp_all add: vertices_column)

lemma length_column_records [simp]:
  "length (column_records P radius randomness w h iy v uOffset ixs s) = length ixs"
  by (induction ixs arbitrary: s) simp_all

lemma column_records_nine:
  "r \<in> set (column_records P radius randomness w h iy v uOffset ixs s) \<Longrightarrow> length r = 9"
  by (induction ixs arbitrary: s) auto

lemma column_records_append:
  "column_records P radius randomness w h iy v uOffset (xs @ ys) s
   = column_records P radius randomness w h iy v uOffset xs s
     @ column_records P radius randomness w h iy v uOffset ys
         (fold (column P radius randomness w h iy v uOffset) xs s)"
  by (induction xs arbitrary: s) simp_all

lemma vertices_ring:
  "l_vertices (ring P radius randomness w h iy s)
   = l_vertices s @ concat (ring_records P radius randomness w h iy s)"
  by (simp add: ring_def ring_records_def Let_def vertices_columns del: upt_Suc)

lemma vertices_rings:
  "l_vertices (fold (ring P radius randomness w h) iys s)
   = l_vertices s @ concat (map concat (mesh_records P radius randomness w h iys s))"
  by (induction iys arbitrary: s) (simp_all add: vertices_ring)

lemma length_ring_records [simp]:
  "length (ring_records P radius randomness w h iy s) = Suc w"
  by (simp add: ring_records_def)

lemma ring_records_nine:
  "r \<in> set (ring_records P radius randomness w h iy s) \<Longrightarrow> length r = 9"
  unfolding ring_records_def by (rule column_records_nine)

lemma length_mesh_records [simp]:
  "length (mesh_records P radius randomness w h iys s) = length iys"
  by (induction iys arbitrary: s) simp_all

lemma mesh_records_nth:
  "i < length iys \<Longrightarrow>
   \<exists>s'. mesh_records P radius randomness w h iys s ! i
        = ring_records P radius randomness w h (iys ! i) s'"
proof (induction iys arbitrary: s i)
  case Nil
  then show ?case by simp
next
  case (Cons iy iys)
  then show ?case by (cases i) auto
qed

lemma mesh_records_ring:
  "R \<in> set (mesh_records P radius randomness w h iys s) \<Longrightarrow>
   length R = Suc w \<and> (\<forall>r\<in>set R. length r = 9)"
  by (induction iys arbitrary: s) (auto simp: ring_records_nine)

lemma length_concat_ring:
  "R \<in> set (mesh_records P radius randomness w h iys s) \<Longrightarrow> length (concat R) = 9 * Suc w"
  using mesh_records_ring [of R P radius randomness w h iys s]
    length_concat_uniform [of R 9] by simp

lemma length_vertices_generate:
  "length (l_vertices (generate P radius randomness w h (init_locals P))) = 9 * (Suc w * Suc h)"
proof -
  let ?M = "mesh_records P radius randomness w h [0..<Suc h] (init_locals P)"
  have "\<forall>xs\<in>set (map concat ?M). length xs = 9 * Suc w"
    by (auto simp: length_concat_ring)
  from length_concat_uniform [OF this]
  have "length (concat (map concat ?M)) = Suc h * (9 * Suc w)" by simp
  then show ?thesis
    by (simp add: generate_def vertices_rings init_locals_def algebra_simps del: upt_Suc)
qed

lemma column_records_nth:
  "i < length ixs \<Longrightarrow>
   column_records P radius randomness w h iy v uOffset ixs s ! i
   = pushed P radius randomness w h iy v uOffset (ixs ! i)
       (fold (column P radius randomness w h iy v uOffset) (take i ixs) s)"
proof (induction ixs arbitrary: i s)
  case Nil
  then show ?case by simp
next
  case (Cons ix ixs)
  then show ?case by (cases i) simp_all
qed

lemma column_fields [simp]:
  "l_firstVertex (column P radius randomness w h iy v uOffset ix s)
   = l_firstVertex (place P radius randomness w h iy v
       (f_div P (f_of_int P (int ix)) (f_of_int P (int w))) ix s)"
  "l_vertex (column P radius randomness w h iy v uOffset ix s)
   = l_vertex (place P radius randomness w h iy v
       (f_div P (f_of_int P (int ix)) (f_of_int P (int w))) ix s)"
  by (simp_all add: column_def Let_def)

lemma columns_keep_first:
  "0 \<notin> set ixs \<Longrightarrow>
   l_firstVertex (fold (column P radius randomness w h iy v uOffset) ixs s) = l_firstVertex s"
  by (induction ixs arbitrary: s) (simp_all add: place_keeps_first)

lemma columns_pole_keep_vertex:
  "iy = 0 \<or> iy = h \<Longrightarrow> 0 \<notin> set ixs \<Longrightarrow> w \<notin> set ixs \<Longrightarrow>
   l_vertex (fold (column P radius randomness w h iy v uOffset) ixs s) = l_vertex s"
proof (induction ixs arbitrary: s)
  case Nil
  then show ?case by simp
next
  case (Cons ix ixs)
  then have "place P radius randomness w h iy v
       (f_div P (f_of_int P (int ix)) (f_of_int P (int w))) ix s = s"
    by (intro place_pole) auto
  with Cons show ?case by simp
qed

lemma position_pushed:
  "rec_position (pushed P radius randomness w h iy v uOffset ix s)
   = l_vertex (place P radius randomness w h iy v
       (f_div P (f_of_int P (int ix)) (f_of_int P (int w))) ix s)"
  by (simp add: rec_position_def pushed_def Let_def vertex_record_def split: prod.split)

lemma upt_from_zero: "0 < n \<Longrightarrow> [0..<n] = 0 # [1..<n]"
  by (simp add: upt_rec)

lemma ring_record_nth:
  "ix \<le> w \<Longrightarrow>
   ring_records P radius randomness w h iy s ! ix
   = pushed P radius randomness w h iy (ring_v P h iy) (ring_uOffset P w h iy) ix
       (fold (column P radius randomness w h iy (ring_v P h iy) (ring_uOffset P w h iy))
          [0..<ix] (s\<lparr>l_verticesRow := []\<rparr>))"
  unfolding ring_records_def
  by (subst column_records_nth) (simp_all add: take_upt del: upt_Suc)

lemma ring_seam:
  assumes "0 < w"
  shows "rec_position (ring_records P radius randomness w h iy s ! w)
       = rec_position (ring_records P radius randomness w h iy s ! 0)"
proof -
  let ?col = "column P radius randomness w h iy (ring_v P h iy) (ring_uOffset P w h iy)"
  let ?s0 = "s\<lparr>l_verticesRow := []\<rparr>"
  have "rec_position (ring_records P radius randomness w h iy s ! w)
      = l_firstVertex (fold ?col [0..<w] ?s0)"
    by (simp add: ring_record_nth position_pushed place_last)
  also have "\<dots> = l_firstVertex (fold ?col [1..<w] (?col 0 ?s0))"
    using assms by (simp add: upt_from_zero)
  also have "\<dots> = l_firstVertex (?col 0 ?s0)"
    by (rule columns_keep_first) simp
  also have "\<dots> = rec_position (ring_records P radius randomness w h iy s ! 0)"
    using assms by (simp add: ring_record_nth position_pushed place_first)
  finally show ?thesis .
qed

lemma ring_pole:
  assumes "iy = 0 \<or> iy = h" and "0 < ix" and "ix < w"
  shows "rec_position (ring_records P radius randomness w h iy s ! ix)
       = rec_position (ring_records P radius randomness w h iy s ! 0)"
proof -
  let ?col = "column P radius randomness w h iy (ring_v P h iy) (ring_uOffset P w h iy)"
  let ?s0 = "s\<lparr>l_verticesRow := []\<rparr>"
  let ?u = "\<lambda>ix. f_div P (f_of_int P (int ix)) (f_of_int P (int w))"
  have "rec_position (ring_records P radius randomness w h iy s ! ix)
      = l_vertex (place P radius randomness w h iy (ring_v P h iy) (?u ix) ix (fold ?col [0..<ix] ?s0))"
    using assms by (simp add: ring_record_nth position_pushed)
  also have "\<dots> = l_vertex (fold ?col [0..<ix] ?s0)"
    using assms by (subst place_pole) auto
  also have "\<dots> = l_vertex (fold ?col [1..<ix] (?col 0 ?s0))"
    using assms by (simp add: upt_from_zero)
  also have "\<dots> = l_vertex (?col 0 ?s0)"
    using assms by (intro columns_pole_keep_vertex) auto
  also have "\<dots> = rec_position (ring_records P radius randomness w h iy s ! 0)"
    by (simp add: ring_record_nth position_pushed)
  finally show ?thesis .
qed

lemma ring_pole_positions:
  assumes "iy = 0 \<or> iy = h" and "0 < w" and "ix \<le> w"
  shows "rec_position (ring_records P radius randomness w h iy s ! ix)
       = rec_position (ring_records P radius randomness w h iy s ! 0)"
proof -
  consider "ix = 0" | "0 < ix" "ix < w" | "ix = w" using assms(3) by linarith
  then show ?thesis
  proof cases
    case 1
    then show ?thesis by simp
  next
    case 2
    with assms(1) show ?thesis by (intro ring_pole)
  next
    case 3
    with assms(2) show ?thesis by (simp add: ring_seam)
  qed
qed

lemma ring_layout:
  assumes "ix \<le> w"
  shows "ring_records P radius randomness w h iy s ! ix ! 3 = f_one P"
    and "ring_records P radius randomness w h iy s ! ix ! 7
         = f_add P (f_div P (f_of_int P (int ix)) (f_of_int P (int w))) (ring_uOffset P w h iy)"
    and "ring_records P radius randomness w h iy s ! ix ! 8
         = f_sub P (f_one P) (ring_v P h iy)"
  using assms
  by (simp_all add: ring_record_nth pushed_def Let_def vertex_record_def split: prod.split)

section \<open>The segment counts and the result of create\<close>

text \<open>\<open>create\<close> returns a mesh exactly on the inputs that \<open>fits\<close> describes.\<close>

lemma clamp_bounds:
  "3 \<le> clampW ws" "2 \<le> clampH hs" "clampW ws \<le> INT_MAX" "clampH hs \<le> INT_MAX"
proof -
  show "3 \<le> clampW ws" "2 \<le> clampH hs" by (simp_all add: clampW_def clampH_def)
  have "sint ws < 2 ^ (LENGTH(32) - 1)" "sint hs < 2 ^ (LENGTH(32) - 1)"
    by (rule sint_lt)+
  then show "clampW ws \<le> INT_MAX" "clampH hs \<le> INT_MAX"
    by (simp_all add: clampW_def clampH_def INT_MAX_def)
qed

lemma clamp_nat: "3 \<le> nat (clampW ws)" "2 \<le> nat (clampH hs)"
  using clamp_bounds(1) [of ws] clamp_bounds(2) [of hs] by simp_all

lemma clamp_nat_le: "nat (clampW ws) \<le> 2 ^ 31" "nat (clampH hs) \<le> 2 ^ 31"
  using clamp_bounds(3) [of ws] clamp_bounds(4) [of hs] by (simp_all add: INT_MAX_def)

lemma clamp_4_2: "clampW 4 = 4" "clampH 2 = 2" "nat (clampW 4) = 4" "nat (clampH 2) = 2"
  by (simp_all add: clampW_def clampH_def)

lemma clamp_small: "nat (clampW (- 5)) = 3" "nat (clampH 1) = 2" "fits (- 5) 1"
  by (simp_all add: clampW_def clampH_def fits_def INT_MAX_def)

lemma clamp_large: "nat (clampW 255) = 255" "nat (clampH 256) = 256" "fits 255 256"
  by (simp_all add: clampW_def clampH_def fits_def INT_MAX_def)

lemma fits_4_2: "fits 4 2"
  by (simp add: fits_def clamp_4_2 INT_MAX_def)

lemma reserve_count_eq:
  assumes "3 \<le> w" "2 \<le> h"
  shows "reserve_count w h =
     (if (w + 1) * (h + 1) * 8 \<le> INT_MAX then Inr ((w + 1) * (h + 1) * 8) else Inl SignedOverflow)"
proof -
  define X where "X = (w + 1) * (h + 1)"
  have a: "1 \<le> w + 1" "1 \<le> h + 1" using assms by simp_all
  have ab: "w + 1 \<le> X" "h + 1 \<le> X"
    using a mult_left_mono [of 1 "h + 1" "w + 1"] mult_right_mono [of 1 "w + 1" "h + 1"]
    by (simp_all add: X_def)
  have lo: "INT_MIN \<le> w + 1" "INT_MIN \<le> h + 1" "INT_MIN \<le> X" "INT_MIN \<le> X * 8"
    using a ab by (simp_all add: INT_MIN_def)
  have rc: "reserve_count w h =
     (case int_add w 1 of Inl e \<Rightarrow> Inl e | Inr a \<Rightarrow>
       (case int_add h 1 of Inl e \<Rightarrow> Inl e | Inr b \<Rightarrow>
         (case int_mul a b of Inl e \<Rightarrow> Inl e | Inr c \<Rightarrow> int_mul c 8)))"
    by (simp add: reserve_count_def)
  show ?thesis
  proof (cases "X * 8 \<le> INT_MAX")
    case True
    then have "w + 1 \<le> INT_MAX" "h + 1 \<le> INT_MAX" "X \<le> INT_MAX"
      using ab a by linarith+
    with True lo show ?thesis
      unfolding rc by (simp add: int_add_def int_mul_def X_def [symmetric])
  next
    case False
    then show ?thesis
      unfolding rc by (simp add: int_add_def int_mul_def X_def [symmetric] split: sum.splits)
  qed
qed

lemma create_eq:
  "create P radius ws hs randomness =
     (if fits ws hs
      then Inr \<lparr>vertices = l_vertices (generate P radius randomness (nat (clampW ws)) (nat (clampH hs)) (init_locals P)),
               indices = triangles (l_grid (generate P radius randomness (nat (clampW ws)) (nat (clampH hs)) (init_locals P)))
                           (nat (clampW ws)) (nat (clampH hs))\<rparr>
      else Inl SignedOverflow)"
  using reserve_count_eq [OF clamp_bounds(1) [of ws] clamp_bounds(2) [of hs]]
  by (simp add: create_def fits_def Let_def)

lemma create_returns: "fits ws hs \<Longrightarrow> \<exists>mesh. create P radius ws hs randomness = Inr mesh"
  by (simp add: create_eq)

lemma create_InrD:
  assumes "create P radius ws hs randomness = Inr mesh"
  shows "fits ws hs"
    and "vertices mesh = l_vertices (generate P radius randomness (nat (clampW ws)) (nat (clampH hs)) (init_locals P))"
    and "indices mesh = triangles (l_grid (generate P radius randomness (nat (clampW ws)) (nat (clampH hs)) (init_locals P)))
                           (nat (clampW ws)) (nat (clampH hs))"
  using assms by (auto simp: create_eq split: if_splits)

lemma length_vertices_create:
  "create P radius ws hs randomness = Inr mesh \<Longrightarrow>
   length (vertices mesh) = 9 * ((nat (clampW ws) + 1) * (nat (clampH hs) + 1))"
  by (simp add: create_InrD(2) length_vertices_generate)

lemma vertices_records:
  assumes "create P radius ws hs randomness = Inr mesh"
  defines "M \<equiv> mesh_records P radius randomness (nat (clampW ws)) (nat (clampH hs))
                   [0..<Suc (nat (clampH hs))] (init_locals P)"
  shows "vertices mesh = concat (map concat M)"
    and "iy \<le> nat (clampH hs) \<Longrightarrow> ix \<le> nat (clampW ws) \<Longrightarrow> j < 9 \<Longrightarrow>
         float_at (vertices mesh) (vertex_index (nat (clampW ws)) iy ix) j = M ! iy ! ix ! j"
proof -
  define w h where "w = nat (clampW ws)" and "h = nat (clampH hs)"
  show V: "vertices mesh = concat (map concat M)"
    using create_InrD(2) [OF assms(1)]
    by (simp add: generate_def vertices_rings init_locals_def M_def del: upt_Suc)
  assume a: "iy \<le> nat (clampH hs)" "ix \<le> nat (clampW ws)" "j < 9"
  have iy: "iy < length M" using a(1) by (simp add: M_def)
  have rows: "\<forall>xs\<in>set (map concat M). length xs = 9 * Suc w"
    by (auto simp: M_def w_def length_concat_ring)
  have "M ! iy \<in> set M" using iy by simp
  then have recs: "\<forall>r\<in>set (M ! iy). length r = 9" and len: "length (M ! iy) = Suc w"
    using mesh_records_ring [of "M ! iy" P radius randomness w h "[0..<Suc h]" "init_locals P"]
    by (simp_all add: M_def w_def h_def)
  have e: "9 * vertex_index w iy ix + j = iy * (9 * Suc w) + (ix * 9 + j)"
    by (simp add: vertex_index_def algebra_simps)
  have lt: "ix * 9 + j < 9 * Suc w" using a(2,3) by (simp add: w_def)
  have "float_at (vertices mesh) (vertex_index w iy ix) j
      = concat (map concat M) ! (iy * (9 * Suc w) + (ix * 9 + j))"
    by (simp only: float_at_def V e)
  also have "\<dots> = map concat M ! iy ! (ix * 9 + j)"
    using rows _ lt by (rule concat_nth_uniform) (simp add: iy)
  also have "\<dots> = concat (M ! iy) ! (ix * 9 + j)" using iy by simp
  also have "\<dots> = M ! iy ! ix ! j"
    using recs _ a(3) by (rule concat_nth_uniform) (simp add: len a(2) [folded w_def] less_Suc_eq_le)
  finally show "float_at (vertices mesh) (vertex_index (nat (clampW ws)) iy ix) j = M ! iy ! ix ! j"
    by (simp add: w_def)
qed

lemma vertices_float_at:
  assumes "create P radius ws hs randomness = Inr mesh" and "iy \<le> nat (clampH hs)"
  shows "\<exists>s. \<forall>ix j. ix \<le> nat (clampW ws) \<longrightarrow> j < 9 \<longrightarrow>
           float_at (vertices mesh) (vertex_index (nat (clampW ws)) iy ix) j
           = ring_records P radius randomness (nat (clampW ws)) (nat (clampH hs)) iy s ! ix ! j"
proof -
  let ?h = "nat (clampH hs)"
  have "iy < length [0..<Suc ?h]" using assms(2) by simp
  from mesh_records_nth [OF this, of P radius randomness "nat (clampW ws)" ?h "init_locals P"]
  obtain s where "mesh_records P radius randomness (nat (clampW ws)) ?h [0..<Suc ?h]
        (init_locals P) ! iy
      = ring_records P radius randomness (nat (clampW ws)) ?h iy s"
    using assms(2) by (auto simp del: upt_Suc)
  with vertices_records(2) [OF assms] show ?thesis by auto
qed

section \<open>The grid and the index loop\<close>

lemma columns_index:
  "l_index (fold (column P radius randomness w h iy v uOffset) ixs s) = l_index s + int (length ixs)"
  by (induction ixs arbitrary: s) (simp_all add: column_def Let_def)

lemma columns_grid:
  "l_grid (fold (column P radius randomness w h iy v uOffset) ixs s) = l_grid s"
  by (induction ixs arbitrary: s) (simp_all add: column_def Let_def)

lemma columns_row:
  "l_verticesRow (fold (column P radius randomness w h iy v uOffset) ixs s)
   = l_verticesRow s @ map (\<lambda>k. l_index s + int k) [0..<length ixs]"
proof (induction ixs arbitrary: s)
  case Nil
  then show ?case by simp
next
  case (Cons ix ixs)
  have "map (\<lambda>k. l_index s + int k) [0..<Suc (length ixs)]
      = l_index s # map (\<lambda>k. l_index s + 1 + int k) [0..<length ixs]"
    by (simp add: upt_rec [of 0] map_Suc_upt [symmetric] del: upt_Suc)
  with Cons show ?case by (simp add: column_def Let_def del: upt_Suc)
qed

lemma ring_grid:
  "l_grid (ring P radius randomness w h iy s)
   = l_grid s @ [map (\<lambda>k. l_index s + int k) [0..<Suc w]]"
  by (simp add: ring_def Let_def columns_grid columns_row del: upt_Suc)

lemma ring_index:
  "l_index (ring P radius randomness w h iy s) = l_index s + int (Suc w)"
  by (simp add: ring_def Let_def columns_index del: upt_Suc)

lemma rings_index:
  "l_index (fold (ring P radius randomness w h) iys s) = l_index s + int (length iys * Suc w)"
  by (induction iys arbitrary: s) (simp_all add: ring_index algebra_simps)

lemma rings_grid:
  "l_grid (fold (ring P radius randomness w h) iys s)
   = l_grid s @ map (\<lambda>i. map (\<lambda>k. l_index s + int (i * Suc w + k)) [0..<Suc w]) [0..<length iys]"
proof (induction iys arbitrary: s)
  case Nil
  then show ?case by simp
next
  case (Cons iy iys)
  have "map (\<lambda>i. map (\<lambda>k. l_index s + int (i * Suc w + k)) [0..<Suc w]) [0..<Suc (length iys)]
      = map (\<lambda>k. l_index s + int k) [0..<Suc w]
        # map (\<lambda>i. map (\<lambda>k. l_index s + int (Suc w) + int (i * Suc w + k)) [0..<Suc w]) [0..<length iys]"
    by (simp add: upt_rec [of 0 "Suc (length iys)"] map_Suc_upt [symmetric] algebra_simps del: upt_Suc)
  with Cons show ?case by (simp add: ring_grid ring_index del: upt_Suc)
qed

lemma grid_generate:
  "l_grid (generate P radius randomness w h (init_locals P)) = grid_of w h"
  by (simp add: generate_def rings_grid grid_of_def vertex_index_def init_locals_def del: upt_Suc)

lemma grid_of_nth:
  "iy \<le> h \<Longrightarrow> ix \<le> w \<Longrightarrow> grid_of w h ! iy ! ix = int (vertex_index w iy ix)"
  by (simp add: grid_of_def del: upt_Suc)

text \<open>Where line 26 has a value, so has every other \<^verbatim>\<open>int\<close> of the function: the loop
  counters end at \<open>widthSegments + 1\<close> and \<open>heightSegments + 1\<close>, the vertex counter at
  their product.\<close>

lemma counters_in_range:
  assumes "fits ws hs"
  defines "w \<equiv> nat (clampW ws)" and "h \<equiv> nat (clampH hs)"
  shows "l_index (generate P radius randomness w h (init_locals P)) = int ((w + 1) * (h + 1))"
    and "int ((w + 1) * (h + 1)) \<le> INT_MAX"
    and "int w + 1 \<le> INT_MAX" and "int h + 1 \<le> INT_MAX"
proof -
  show "l_index (generate P radius randomness w h (init_locals P)) = int ((w + 1) * (h + 1))"
    by (simp add: generate_def rings_index init_locals_def algebra_simps del: upt_Suc)
  define W H where "W = clampW ws" and "H = clampH hs"
  have WH: "3 \<le> W" "2 \<le> H" unfolding W_def H_def by (rule clamp_bounds)+
  then have iw: "int w = W" "int h = H" by (simp_all add: w_def h_def W_def H_def)
  define X where "X = (W + 1) * (H + 1)"
  have a: "1 \<le> W + 1" "1 \<le> H + 1" using WH by simp_all
  have ab: "W + 1 \<le> X" "H + 1 \<le> X"
    using a mult_left_mono [of 1 "H + 1" "W + 1"] mult_right_mono [of 1 "W + 1" "H + 1"]
    by (simp_all add: X_def)
  have "X * 8 \<le> INT_MAX" using assms(1) by (simp add: fits_def X_def W_def H_def)
  with ab a have X: "X \<le> INT_MAX" by linarith
  have "int ((w + 1) * (h + 1)) = (int w + 1) * (int h + 1)" by (simp add: algebra_simps)
  then have "int ((w + 1) * (h + 1)) = X" by (simp only: X_def iw)
  with X show "int ((w + 1) * (h + 1)) \<le> INT_MAX" by simp
  show "int w + 1 \<le> INT_MAX" "int h + 1 \<le> INT_MAX" using ab X by (simp_all add: iw)
qed

lemma quad_values_eq:
  "quad g h iy ix ind = ind @ map word_of_int (quad_values g h iy ix)"
  by (simp add: quad_def quad_values_def Let_def)

lemma fold_quad:
  "fold (quad g h iy) ixs ind = ind @ map word_of_int (concat (map (quad_values g h iy) ixs))"
  by (induction ixs arbitrary: ind) (simp_all add: quad_values_eq)

lemma fold_rows:
  "fold (\<lambda>iy. fold (quad g h iy) ixs) iys ind
   = ind @ map word_of_int (concat (map (\<lambda>iy. concat (map (quad_values g h iy) ixs)) iys))"
  by (induction iys arbitrary: ind) (simp_all add: fold_quad)

lemma triangles_values: "triangles g w h = map word_of_int (triangle_values g w h)"
  by (simp add: triangles_def triangle_values_def fold_rows)

lemma length_quad_values:
  "length (quad_values g h iy ix) = (if iy \<noteq> 0 then 3 else 0) + (if iy \<noteq> h - 1 then 3 else 0)"
  by (simp add: quad_values_def Let_def)

lemma length_row_values:
  "length (concat (map (quad_values g h iy) ixs))
   = length ixs * ((if iy \<noteq> 0 then 3 else 0) + (if iy \<noteq> h - 1 then 3 else 0))"
  by (induction ixs) (simp_all add: length_quad_values)

lemma length_rows_values:
  "k \<le> h \<Longrightarrow>
   length (concat (map (\<lambda>iy. concat (map (quad_values g h iy) ixs)) [0..<k]))
   = 3 * length ixs * ((k - 1) + min k (h - 1))"
proof (induction k)
  case 0
  then show ?case by simp
next
  case (Suc k)
  then have IH: "length (concat (map (\<lambda>iy. concat (map (quad_values g h iy) ixs)) [0..<k]))
     = 3 * length ixs * ((k - 1) + min k (h - 1))" by simp
  have step: "(Suc k - 1) + min (Suc k) (h - 1)
     = ((k - 1) + min k (h - 1)) + ((if k \<noteq> 0 then 1 else 0) + (if k \<noteq> h - 1 then 1 else 0))"
    using Suc.prems by (auto simp: min_def)
  have "length ixs * ((if k \<noteq> 0 then 3 else 0) + (if k \<noteq> h - 1 then 3 else 0))
      = 3 * length ixs * ((if k \<noteq> 0 then 1 else 0) + (if k \<noteq> h - 1 then 1 else (0::nat)))"
    by simp
  then show ?case
    unfolding step by (simp add: IH length_row_values algebra_simps)
qed

lemma length_triangle_values:
  "2 \<le> h \<Longrightarrow> length (triangle_values g w h) = 3 * (2 * (h - 1) * w)"
  using length_rows_values [of h h g "[0..<w]"]
  by (simp add: triangle_values_def algebra_simps)

lemma quad_values_grid:
  assumes "iy < h" "ix < w" "x \<in> set (quad_values (grid_of w h) h iy ix)"
  shows "\<exists>i j. i \<le> h \<and> j \<le> w \<and> x = int (vertex_index w i j)"
proof -
  have "x \<in> {grid_of w h ! iy ! (ix + 1), grid_of w h ! iy ! ix,
              grid_of w h ! (iy + 1) ! ix, grid_of w h ! (iy + 1) ! (ix + 1)}"
    using assms(3) by (auto simp: quad_values_def Let_def split: if_splits)
  moreover have "grid_of w h ! iy ! (ix + 1) = int (vertex_index w iy (ix + 1))"
    "grid_of w h ! iy ! ix = int (vertex_index w iy ix)"
    "grid_of w h ! (iy + 1) ! ix = int (vertex_index w (iy + 1) ix)"
    "grid_of w h ! (iy + 1) ! (ix + 1) = int (vertex_index w (iy + 1) (ix + 1))"
    using assms(1,2) by (simp_all add: grid_of_nth)
  ultimately show ?thesis using assms(1,2)
    by (metis Suc_eq_plus1 Suc_leI insertE less_imp_le singletonD)
qed

lemma triangle_values_grid:
  assumes "x \<in> set (triangle_values (grid_of w h) w h)"
  shows "\<exists>i j. i \<le> h \<and> j \<le> w \<and> x = int (vertex_index w i j)"
proof -
  from assms obtain iy ix where "iy < h" "ix < w" "x \<in> set (quad_values (grid_of w h) h iy ix)"
    by (auto simp: triangle_values_def)
  then show ?thesis by (rule quad_values_grid)
qed

lemma vertex_index_less:
  "i \<le> h \<Longrightarrow> j \<le> w \<Longrightarrow> vertex_index w i j < (w + 1) * (h + 1)"
proof -
  assume "i \<le> h" "j \<le> w"
  then have "i * (w + 1) + j < i * (w + 1) + (w + 1)" by simp
  also have "\<dots> = (i + 1) * (w + 1)" by simp
  also have "\<dots> \<le> (h + 1) * (w + 1)" using \<open>i \<le> h\<close> by (intro mult_right_mono) simp_all
  finally show ?thesis by (simp add: vertex_index_def mult.commute)
qed

lemma quad_values_last:
  "iy \<noteq> 0 \<Longrightarrow> g ! (iy + 1) ! (ix + 1) \<in> set (quad_values g h iy ix)"
  by (simp add: quad_values_def Let_def)

lemma last_vertex_emitted:
  assumes "2 \<le> h" "0 < w"
  shows "int (vertex_index w h w) \<in> set (triangle_values (grid_of w h) w h)"
proof -
  obtain h' w' where hw: "h = Suc h'" "w = Suc w'" "h' \<noteq> 0"
    using assms by (cases h; cases w) auto
  have "grid_of w h ! (h' + 1) ! (w' + 1) \<in> set (quad_values (grid_of w h) h h' w')"
    using hw(3) by (rule quad_values_last)
  moreover have "grid_of w h ! (h' + 1) ! (w' + 1) = int (vertex_index w h w)"
    unfolding hw by (subst grid_of_nth) simp_all
  moreover have "h' \<in> set [0..<h]" "w' \<in> set [0..<w]" using hw by simp_all
  ultimately have "\<exists>iy\<in>set [0..<h]. \<exists>ix\<in>set [0..<w].
      int (vertex_index w h w) \<in> set (quad_values (grid_of w h) h iy ix)"
    by metis
  then show ?thesis
    by (simp add: triangle_values_def del: upt_Suc)
qed

section \<open>Rounding to binary32\<close>

text \<open>The rounded magnitude is the rounded significand times the quantum; bounds by powers of
  two carry over from the real number to the float.\<close>

lemmas f32_eval = to_f32_def round_f32_def quantum_def bit_length.simps pow2_def round_even_def
  pack_def Let_def valof_def f32_mag_def f32_sign_def f32_expo_def f32_frac_def
  is_nan_def is_inf_def is_zero_def is_finite_def f32_nan_def f32_infinity_def

lemma pow2_powi: "pow2 e = 2 powi e"
  by (simp add: pow2_def power_int_def power_one_over inverse_eq_divide)

lemma pow2_pos [simp]: "0 < pow2 e"
  by (simp add: pow2_powi)

lemma pow2_nonneg [simp]: "0 \<le> pow2 e"
  by (simp add: less_imp_le)

lemma pow2_0 [simp]: "pow2 0 = 1"
  by (simp add: pow2_def)

lemma pow2_add: "pow2 (a + b) = pow2 a * pow2 b"
  by (simp add: pow2_powi power_int_add)

lemma pow2_mono: "a \<le> b \<Longrightarrow> pow2 a \<le> pow2 b"
  by (simp add: pow2_powi power_int_increasing)

lemma pow2_nat: "pow2 (int n) = 2 ^ n"
  by (simp add: pow2_def)

lemma pow2_diff: "pow2 (a - b) = pow2 a / pow2 b"
  by (simp add: pow2_powi power_int_diff)

lemma pow2_less: "a < b \<Longrightarrow> pow2 a < pow2 b"
  by (simp add: pow2_powi power_int_strict_increasing)

lemma pow2_le_iff: "pow2 a \<le> pow2 b \<longleftrightarrow> a \<le> b"
  using pow2_less [of b a] pow2_mono [of a b] by fastforce

lemma pow2_less_iff: "pow2 a < pow2 b \<longleftrightarrow> a < b"
  using pow2_less [of a b] pow2_mono [of b a] by fastforce

lemma bit_length_less: "n < 2 ^ bit_length n"
proof (induction n rule: bit_length.induct)
  case (1 n)
  show ?case
  proof (cases "n = 0")
    case True
    then show ?thesis by (simp add: bit_length.simps)
  next
    case False
    with 1 have "n div 2 < 2 ^ bit_length (n div 2)" by simp
    then have "n < 2 * 2 ^ bit_length (n div 2)" by linarith
    with False show ?thesis by (subst bit_length.simps) simp
  qed
qed

lemma bit_length_ge: "n \<noteq> 0 \<Longrightarrow> 2 ^ (bit_length n - 1) \<le> n"
proof (induction n rule: bit_length.induct)
  case (1 n)
  show ?case
  proof (cases "n div 2 = 0")
    case True
    with "1.prems" have "n = 1" by (cases n) auto
    then show ?thesis by (simp add: bit_length.simps)
  next
    case False
    with 1 have IH: "2 ^ (bit_length (n div 2) - 1) \<le> n div 2" by simp
    have "bit_length (n div 2) \<noteq> 0" using False by (subst bit_length.simps) simp
    then have "2 ^ bit_length (n div 2) = (2::nat) * 2 ^ (bit_length (n div 2) - 1)"
      by (cases "bit_length (n div 2)") simp_all
    with IH have "2 ^ bit_length (n div 2) \<le> n" by linarith
    with "1.prems" show ?thesis by (subst bit_length.simps) simp
  qed
qed

lemma bit_length_eq:
  assumes "2 ^ k \<le> n" "n < 2 ^ Suc k"
  shows "bit_length n = Suc k"
proof -
  have n: "n \<noteq> 0" using assms(1) by (cases n) auto
  have "(2::nat) ^ k < 2 ^ bit_length n"
    using assms(1) bit_length_less [of n] by (rule le_less_trans)
  then have a: "k < bit_length n" by (simp add: power_strict_increasing_iff)
  have "(2::nat) ^ (bit_length n - 1) < 2 ^ Suc k"
    using bit_length_ge [OF n] assms(2) by (rule le_less_trans)
  then have "bit_length n - 1 < Suc k" by (simp only: power_strict_increasing_iff one_less_numeral_iff semiring_norm)
  with a show ?thesis by linarith
qed

lemma round_even_le: "0 \<le> t \<Longrightarrow> t \<le> real U \<Longrightarrow> round_even t \<le> U"
proof -
  assume t: "0 \<le> t" "t \<le> real U"
  define f where "f = nat \<lfloor>t\<rfloor>"
  have f: "real f \<le> t" "t < real f + 1" using t by (simp_all add: f_def)
  then have "f \<le> U" using t by linarith
  moreover have "f + 1 \<le> U" if "1 / 2 \<le> t - real f"
  proof -
    from that t have "real f < real U" by linarith
    then show ?thesis by simp
  qed
  ultimately show ?thesis
    by (auto simp: round_even_def Let_def f_def [symmetric])
qed

lemma round_even_ge: "real L \<le> t \<Longrightarrow> L \<le> round_even t"
proof -
  assume t: "real L \<le> t"
  define f where "f = nat \<lfloor>t\<rfloor>"
  have "int L \<le> \<lfloor>t\<rfloor>" using t by (simp add: le_floor_iff)
  then have "L \<le> f" by (simp add: f_def)
  then show ?thesis
    by (auto simp: round_even_def Let_def f_def [symmetric])
qed

lemma round_even_0 [simp]: "round_even 0 = 0"
  by (simp add: round_even_def)

lemma unat_pack:
  "e < 256 \<Longrightarrow> m < 2 ^ 23 \<Longrightarrow> unat (pack s e m) = (if s then 2 ^ 31 else 0) + e * 2 ^ 23 + m"
proof -
  assume a: "e < 256" "m < 2 ^ 23"
  then have "e * 2 ^ 23 + m < 256 * 2 ^ 23" by simp
  then have "(if s then 2 ^ 31 else 0) + e * 2 ^ 23 + m < 2 ^ LENGTH(32)" by simp
  then show ?thesis unfolding pack_def
    by (simp only: unsigned_of_nat take_bit_nat_eq_self of_nat_id)
qed

lemma pack_fields:
  assumes "e < 256" "m < 2 ^ 23"
  shows "f32_expo (pack s e m) = e" "f32_frac (pack s e m) = m" "f32_sign (pack s e m) = s"
proof -
  define c :: nat where "c = (if s then 256 else 0)"
  have u: "unat (pack s e m) = (c + e) * 2 ^ 23 + m"
    by (simp add: unat_pack [OF assms] c_def)
  have d: "((c + e) * 2 ^ 23 + m) div 2 ^ 23 = c + e" using assms(2) by simp
  have "(c + e) mod 256 = e" using assms(1) by (simp add: c_def)
  then show "f32_expo (pack s e m) = e" by (simp only: f32_expo_def u d)
  have "((c + e) * 2 ^ 23 + m) mod 2 ^ 23 = m" using assms(2) by (simp only: mod_mult_self3) simp
  then show "f32_frac (pack s e m) = m" by (simp only: f32_frac_def u)
  have "(2 ^ 31 \<le> (c + e) * 2 ^ 23 + m) = s" using assms by (simp add: c_def)
  then show "f32_sign (pack s e m) = s" by (simp only: f32_sign_def u)
qed

lemma quantum_le: "quantum a \<le> 254"
  by (simp add: quantum_def)

lemma quantum_upper:
  assumes "0 \<le> a" "quantum a < 254"
  shows "a < pow2 (int (quantum a) - 125)"
proof -
  define N where "N = nat \<lfloor>a * 2 ^ 125\<rfloor>"
  have q: "quantum a = bit_length N" using assms(2) by (simp add: quantum_def N_def)
  have "a * 2 ^ 125 < real N + 1" using assms(1) by (simp add: N_def)
  also have "real N + 1 \<le> 2 ^ bit_length N"
    using bit_length_less [of N] by (metis Suc_leI of_nat_Suc of_nat_le_iff of_nat_numeral of_nat_power add.commute plus_1_eq_Suc)
  finally have "a < 2 ^ bit_length N / 2 ^ 125" by (simp add: field_simps)
  also have "\<dots> = pow2 (int (bit_length N) - int 125)"
    by (simp only: pow2_diff pow2_nat)
  finally show ?thesis by (simp add: q)
qed

lemma quantum_lower:
  assumes "0 \<le> a" "1 \<le> quantum a"
  shows "pow2 (int (quantum a) - 126) \<le> a"
proof -
  define N where "N = nat \<lfloor>a * 2 ^ 125\<rfloor>"
  have q: "quantum a \<le> bit_length N" by (simp add: quantum_def N_def)
  have "bit_length N \<noteq> 0" using assms(2) by (simp add: quantum_def N_def)
  have "N \<noteq> 0"
  proof
    assume "N = 0"
    then have "bit_length N = 0" by (simp add: bit_length.simps)
    with \<open>bit_length N \<noteq> 0\<close> show False by simp
  qed
  from bit_length_ge [OF this] have "real (2 ^ (bit_length N - 1)) \<le> real N"
    by (simp only: of_nat_le_iff)
  also have "real N \<le> a * 2 ^ 125" using assms(1) by (simp add: N_def)
  finally have "2 ^ (bit_length N - 1) / 2 ^ 125 \<le> a" by (simp add: field_simps)
  moreover have "2 ^ (bit_length N - 1) / 2 ^ 125 = pow2 (int (bit_length N - 1) - int 125)"
    by (simp only: pow2_diff pow2_nat)
  moreover have "pow2 (int (quantum a) - 126) \<le> pow2 (int (bit_length N - 1) - int 125)"
    using q \<open>bit_length N \<noteq> 0\<close> by (intro pow2_mono) simp
  ultimately show ?thesis by linarith
qed

lemma quantum_small: "0 \<le> a \<Longrightarrow> a < pow2 128 \<Longrightarrow> quantum a < 254"
proof (rule ccontr)
  assume a: "0 \<le> a" "a < pow2 128" and "\<not> quantum a < 254"
  with quantum_le [of a] have q: "quantum a = 254" by simp
  with quantum_lower [OF a(1)] have "pow2 128 \<le> a" by simp
  with a(2) show False by simp
qed

lemma scaled_upper:
  assumes "0 \<le> a" "quantum a < 254"
  shows "a / pow2 (int (quantum a) - 149) < 2 ^ 24"
proof -
  have "pow2 ((int (quantum a) - 149) + 24) = pow2 (int (quantum a) - 149) * pow2 24"
    by (rule pow2_add)
  moreover have "pow2 24 = 2 ^ 24" by (simp add: pow2_def)
  ultimately have "pow2 (int (quantum a) - 125) = pow2 (int (quantum a) - 149) * 2 ^ 24"
    by simp
  with quantum_upper [OF assms] show ?thesis
    by (simp add: pos_divide_less_eq mult.commute)
qed

lemma scaled_lower:
  assumes "0 \<le> a" "1 \<le> quantum a"
  shows "2 ^ 23 \<le> a / pow2 (int (quantum a) - 149)"
proof -
  have "pow2 ((int (quantum a) - 149) + 23) = pow2 (int (quantum a) - 149) * pow2 23"
    by (rule pow2_add)
  moreover have "pow2 23 = 2 ^ 23" by (simp add: pow2_def)
  ultimately have "pow2 (int (quantum a) - 126) = pow2 (int (quantum a) - 149) * 2 ^ 23"
    by simp
  with quantum_lower [OF assms] show ?thesis
    by (simp add: pos_le_divide_eq mult.commute)
qed

lemma scaled_nonneg: "0 \<le> a \<Longrightarrow> 0 \<le> a / pow2 e"
  by (intro divide_nonneg_pos) simp_all

lemma mantissa_le:
  assumes "0 \<le> a" "quantum a < 254"
  shows "round_even (a / pow2 (int (quantum a) - 149)) \<le> 2 ^ 24"
  using scaled_upper [OF assms] scaled_nonneg [OF assms(1)]
  by (intro round_even_le) simp_all

lemma mantissa_ge:
  assumes "0 \<le> a" "1 \<le> quantum a"
  shows "2 ^ 23 \<le> round_even (a / pow2 (int (quantum a) - 149))"
  using scaled_lower [OF assms] by (intro round_even_ge) simp

lemma f32_mag_pack:
  assumes "e < 256" "m < 2 ^ 23"
  shows "f32_mag (pack s e m) = (if e = 0 then real m * pow2 (- 149)
                                  else real (2 ^ 23 + m) * pow2 (int e - 150))"
  by (simp only: f32_mag_def pack_fields [OF assms])

lemma round_f32_overflow: "quantum a = 254 \<Longrightarrow> round_f32 s a = f32_infinity s"
  by (simp add: round_f32_def Let_def split: prod.splits if_splits)

lemma round_f32_unfold:
  "round_f32 s a =
     (if round_even (a / pow2 (int (quantum a) - 149)) = 2 ^ 24
      then (if 253 \<le> quantum a then f32_infinity s else pack s (quantum a + 2) 0)
      else if 254 \<le> quantum a then f32_infinity s
      else if round_even (a / pow2 (int (quantum a) - 149)) < 2 ^ 23
      then pack s 0 (round_even (a / pow2 (int (quantum a) - 149)))
      else pack s (quantum a + 1) (round_even (a / pow2 (int (quantum a) - 149)) - 2 ^ 23))"
  by (simp add: round_f32_def Let_def)

lemma round_f32_finite:
  assumes "0 \<le> a" "quantum a < 254"
  defines "k \<equiv> quantum a"
  defines "m \<equiv> round_even (a / pow2 (int k - 149))"
  shows "f32_mag (round_f32 s a) = real m * pow2 (int k - 149)"
    and "f32_sign (round_f32 s a) = s"
    and "f32_expo (round_f32 s a) = 255 \<longleftrightarrow> k = 253 \<and> m = 2 ^ 24"
    and "f32_expo (round_f32 s a) = 255 \<Longrightarrow> f32_frac (round_f32 s a) = 0"
    and "f32_expo (round_f32 s a) = 0 \<and> f32_frac (round_f32 s a) = 0 \<longleftrightarrow> m = 0"
proof -
  have mle: "m \<le> 2 ^ 24" unfolding m_def k_def using assms(1,2) by (rule mantissa_le)
  have mge: "2 ^ 23 \<le> m" if "1 \<le> k"
    unfolding m_def k_def using assms(1) that [unfolded k_def] by (rule mantissa_ge)
  have k: "k < 254" using assms(2) by (simp add: k_def)
  consider (carry_inf) "m = 2 ^ 24" "k = 253"
    | (carry) "m = 2 ^ 24" "k < 253"
    | (sub) "m < 2 ^ 23"
    | (norm) "2 ^ 23 \<le> m" "m < 2 ^ 24"
    using mle k by linarith
  then have "f32_mag (round_f32 s a) = real m * pow2 (int k - 149)
      \<and> f32_sign (round_f32 s a) = s
      \<and> (f32_expo (round_f32 s a) = 255 \<longleftrightarrow> k = 253 \<and> m = 2 ^ 24)
      \<and> (f32_expo (round_f32 s a) = 255 \<longrightarrow> f32_frac (round_f32 s a) = 0)
      \<and> (f32_expo (round_f32 s a) = 0 \<and> f32_frac (round_f32 s a) = 0 \<longleftrightarrow> m = 0)"
  proof cases
    case carry_inf
    then have r: "round_f32 s a = pack s 255 0"
      unfolding round_f32_unfold k_def [symmetric] m_def [symmetric]
      by (simp add: f32_infinity_def)
    have "real (2 ^ 23 + 0) * pow2 (int 255 - 150) = real m * pow2 (int k - 149)"
      using carry_inf by (simp add: pow2_def)
    then show ?thesis unfolding r using carry_inf
      by (simp add: f32_mag_pack pack_fields)
  next
    case carry
    then have r: "round_f32 s a = pack s (k + 2) 0"
      unfolding round_f32_unfold k_def [symmetric] m_def [symmetric] by simp
    have "pow2 (int (k + 2) - 150) = pow2 (int k - 149) * pow2 1"
      by (simp add: pow2_add [symmetric])
    then have "real (2 ^ 23 + 0) * pow2 (int (k + 2) - 150) = real m * pow2 (int k - 149)"
      using carry by (simp add: pow2_def)
    then show ?thesis unfolding r using carry
      by (simp add: f32_mag_pack pack_fields)
  next
    case sub
    then have k0: "k = 0" using mge by fastforce
    with sub have r: "round_f32 s a = pack s 0 m"
      unfolding round_f32_unfold k_def [symmetric] m_def [symmetric] by simp
    show ?thesis unfolding r using sub k0
      by (simp add: f32_mag_pack pack_fields)
  next
    case norm
    then have r: "round_f32 s a = pack s (k + 1) (m - 2 ^ 23)"
      using k unfolding round_f32_unfold k_def [symmetric] m_def [symmetric] by simp
    have f: "k + 1 < 256" "m - 2 ^ 23 < 2 ^ 23" using k norm by simp_all
    have "real (2 ^ 23 + (m - 2 ^ 23)) = real m" using norm by simp
    moreover have "int (k + 1) - 150 = int k - 149" by simp
    ultimately have "real (2 ^ 23 + (m - 2 ^ 23)) * pow2 (int (k + 1) - 150) = real m * pow2 (int k - 149)"
      by simp
    moreover have "k + 1 \<noteq> 0" by simp
    ultimately have M: "f32_mag (pack s (k + 1) (m - 2 ^ 23)) = real m * pow2 (int k - 149)"
      by (simp only: f32_mag_pack [OF f] if_False)
    have E: "f32_expo (pack s (k + 1) (m - 2 ^ 23)) = k + 1"
      and S: "f32_sign (pack s (k + 1) (m - 2 ^ 23)) = s"
      by (rule pack_fields [OF f])+
    show ?thesis unfolding r M E S using norm k by simp
  qed
  then show "f32_mag (round_f32 s a) = real m * pow2 (int k - 149)"
    and "f32_sign (round_f32 s a) = s"
    and "f32_expo (round_f32 s a) = 255 \<longleftrightarrow> k = 253 \<and> m = 2 ^ 24"
    and "f32_expo (round_f32 s a) = 255 \<Longrightarrow> f32_frac (round_f32 s a) = 0"
    and "f32_expo (round_f32 s a) = 0 \<and> f32_frac (round_f32 s a) = 0 \<longleftrightarrow> m = 0"
    by blast+
qed

lemma round_f32_le_pow2:
  assumes "0 \<le> a" "a \<le> pow2 j" "- 149 \<le> j" "j \<le> 127"
  shows "f32_expo (round_f32 s a) < 255" and "f32_mag (round_f32 s a) \<le> pow2 j"
proof -
  define k where "k = quantum a"
  define m where "m = round_even (a / pow2 (int k - 149))"
  have "pow2 j < pow2 128" using assms(4) by (intro pow2_less) simp
  with assms have q: "quantum a < 254" by (intro quantum_small) simp_all
  note R = round_f32_finite [OF assms(1) q, of s, folded k_def, folded m_def]
  have kj: "int k - 149 \<le> j"
  proof (cases "1 \<le> k")
    case True
    with quantum_lower [OF assms(1)] have "pow2 (int k - 126) \<le> a" by (simp add: k_def)
    with assms(2) have "pow2 (int k - 126) \<le> pow2 j" by simp
    then show ?thesis by (simp add: pow2_le_iff)
  next
    case False
    with assms(3) show ?thesis by simp
  qed
  define U where "U = (2::nat) ^ nat (j - (int k - 149))"
  have U: "real U = pow2 (j - (int k - 149))"
    using kj by (simp add: U_def pow2_def)
  have "a / pow2 (int k - 149) \<le> pow2 j / pow2 (int k - 149)"
    using assms(2) by (intro divide_right_mono) (simp_all add: less_imp_le)
  also have "\<dots> = real U" by (simp add: U pow2_diff)
  finally have "m \<le> U"
    unfolding m_def using assms(1) by (intro round_even_le scaled_nonneg)
  then have "real m * pow2 (int k - 149) \<le> real U * pow2 (int k - 149)"
    by (simp add: mult_right_mono)
  also have "\<dots> = pow2 j" unfolding U by (simp add: pow2_add [symmetric])
  finally show mag: "f32_mag (round_f32 s a) \<le> pow2 j" by (simp add: R(1))
  show "f32_expo (round_f32 s a) < 255"
  proof (rule ccontr)
    assume "\<not> f32_expo (round_f32 s a) < 255"
    moreover have "f32_expo (round_f32 s a) \<le> 255"
      by (simp add: f32_expo_def) 
    ultimately have "f32_expo (round_f32 s a) = 255" by simp
    with R(3) have "k = 253" "m = 2 ^ 24" by simp_all
    with R(1) have "f32_mag (round_f32 s a) = pow2 128" by (simp add: pow2_def)
    with mag have "pow2 128 \<le> pow2 j" by simp
    with assms(4) show False by (simp add: pow2_le_iff)
  qed
qed

lemma round_f32_le_max:
  assumes "0 \<le> a" "a \<le> FLT_MAX"
  shows "f32_expo (round_f32 s a) < 255"
proof -
  define k where "k = quantum a"
  define m where "m = round_even (a / pow2 (int k - 149))"
  have "FLT_MAX < pow2 128" by (simp add: FLT_MAX_def pow2_def)
  with assms have q: "quantum a < 254" by (intro quantum_small) simp_all
  note R = round_f32_finite [OF assms(1) q, of s, folded k_def, folded m_def]
  show ?thesis
  proof (rule ccontr)
    assume "\<not> f32_expo (round_f32 s a) < 255"
    moreover have "f32_expo (round_f32 s a) \<le> 255"
      by (simp add: f32_expo_def) 
    ultimately have "f32_expo (round_f32 s a) = 255" by simp
    with R(3) have km: "k = 253" "m = 2 ^ 24" by simp_all
    have "a / pow2 (int k - 149) \<le> real (2 ^ 24 - 1)"
      using assms(2) by (simp add: km FLT_MAX_def pow2_def field_simps)
    then have "m \<le> 2 ^ 24 - 1"
      unfolding m_def using assms(1) by (intro round_even_le scaled_nonneg)
    with km(2) show False by simp
  qed
qed

lemma round_f32_ge_pow2:
  assumes "0 \<le> a" "pow2 j \<le> a" "- 149 \<le> j" "a < pow2 128"
  shows "pow2 j \<le> f32_mag (round_f32 s a)"
proof -
  define k where "k = quantum a"
  define m where "m = round_even (a / pow2 (int k - 149))"
  have q: "quantum a < 254" using assms(1,4) by (rule quantum_small)
  note R = round_f32_finite [OF assms(1) q, of s, folded k_def, folded m_def]
  show ?thesis
  proof (cases "1 \<le> k")
    case True
    then have "2 ^ 23 \<le> m"
      unfolding m_def k_def using assms(1) by (intro mantissa_ge) simp_all
    then have le: "real (2 ^ 23) * pow2 (int k - 149) \<le> real m * pow2 (int k - 149)"
      by (intro mult_right_mono) (simp_all add: less_imp_le)
    have "pow2 23 = real (2 ^ 23)" by (simp add: pow2_def)
    then have eq: "pow2 (23 + (int k - 149)) = real (2 ^ 23) * pow2 (int k - 149)"
      by (simp only: pow2_add)
    have "pow2 j < pow2 (int k - 125)"
      using quantum_upper [OF assms(1) q] assms(2) by (simp add: k_def)
    then have "j \<le> 23 + (int k - 149)" by (simp add: pow2_less_iff)
    then have "pow2 j \<le> pow2 (23 + (int k - 149))" by (rule pow2_mono)
    also note eq
    also note le
    finally show ?thesis by (simp only: R(1))
  next
    case False
    then have k0: "k = 0" by simp
    define L where "L = (2::nat) ^ nat (j + 149)"
    have L: "real L = pow2 (j + 149)" using assms(3) by (simp add: L_def pow2_def)
    have "real L = pow2 j / pow2 (- 149)" by (simp add: L pow2_diff [symmetric])
    also have "\<dots> \<le> a / pow2 (- 149)"
      using assms(2) by (intro divide_right_mono) (simp_all add: less_imp_le)
    finally have "L \<le> m" unfolding m_def k0 by (intro round_even_ge) simp
    then have "real L * pow2 (- 149) \<le> real m * pow2 (- 149)"
      by (intro mult_right_mono) (simp_all add: less_imp_le)
    moreover have "real L * pow2 (- 149) = pow2 j" by (simp add: L pow2_add [symmetric])
    ultimately show ?thesis using R(1) by (simp add: k0)
  qed
qed

lemma round_f32_zero: "round_f32 s 0 = pack s 0 0"
  by (simp add: round_f32_def quantum_def bit_length.simps Let_def)

lemma round_one: "round_f32 s 1 = pack s 127 0"
proof -
  have "bit_length (2 ^ 125) = Suc 125" by (rule bit_length_eq) simp_all
  then have q: "quantum 1 = 126" by (simp add: quantum_def)
  have "round_even (1 / pow2 (int 126 - 149)) = 2 ^ 23"
    by (simp add: pow2_def round_even_def Let_def)
  then show ?thesis by (simp add: round_f32_unfold q)
qed

lemma round_near_one:
  assumes "1 - 1 / 2 ^ 25 \<le> a" "a \<le> 1"
  shows "round_f32 s a = pack s 127 0"
proof (cases "a = 1")
  case True
  then show ?thesis by (simp add: round_one)
next
  case False
  with assms(2) have lt: "a < 1" by simp
  define N where "N = nat \<lfloor>a * 2 ^ 125\<rfloor>"
  have a0: "0 \<le> a" using assms(1) by simp
  define z where "z = \<lfloor>a * 2 ^ 125\<rfloor>"
  have z: "2 ^ 124 \<le> z" "z < 2 ^ 125"
    using assms(1) lt by (simp_all add: z_def le_floor_iff floor_less_iff)
  have "0 \<le> z" using z(1) by simp
  then have "int N = z" unfolding N_def z_def [symmetric] by simp
  with z have "int (2 ^ 124) \<le> int N" "int N < int (2 ^ Suc 124)" by simp_all
  then have lo: "2 ^ 124 \<le> N" and hi: "N < 2 ^ Suc 124"
    by (simp_all only: of_nat_le_iff of_nat_less_iff)
  have "bit_length N = Suc 124" using lo hi by (rule bit_length_eq)
  then have q: "quantum a = 125" by (simp add: quantum_def N_def)
  define t where "t = a / pow2 (- 24)"
  have t: "t = a * 2 ^ 24" by (simp add: t_def pow2_def)
  have tb: "2 ^ 24 - 1 / 2 \<le> t" "t < 2 ^ 24" using assms(1) lt by (simp_all add: t)
  have "\<lfloor>t\<rfloor> = 2 ^ 24 - 1" using tb by (simp add: floor_eq_iff)
  then have f: "nat \<lfloor>t\<rfloor> = 2 ^ 24 - 1" by simp
  have "round_even t = 2 ^ 24"
    using tb by (auto simp: round_even_def Let_def f)
  then have "round_even (a / pow2 (int (quantum a) - 149)) = 2 ^ 24"
    by (simp add: q t_def)
  then show ?thesis
    by (simp add: round_f32_unfold q)
qed

section \<open>The binary32 operations\<close>

lemma mag_nonneg [simp]: "0 \<le> f32_mag x"
  by (simp add: f32_mag_def)

lemma abs_valof [simp]: "\<bar>valof x\<bar> = f32_mag x"
  by (simp add: valof_def)

lemma f32_frac_less: "f32_frac x < 2 ^ 23"
  by (simp add: f32_frac_def)

lemma finite_not_special: "is_finite x \<Longrightarrow> \<not> is_nan x \<and> \<not> is_inf x"
  by (simp add: is_finite_def is_nan_def is_inf_def)

lemma zero_finite: "is_zero x \<Longrightarrow> is_finite x"
  by (simp add: is_zero_def is_finite_def)

lemma zero_mag: "is_zero x \<Longrightarrow> f32_mag x = 0"
  by (simp add: is_zero_def f32_mag_def)

lemma zero_valof: "is_zero x \<Longrightarrow> valof x = 0"
  by (simp add: valof_def zero_mag)

lemma mag_zero_iff: "f32_mag x = 0 \<longleftrightarrow> is_zero x"
proof
  assume m: "f32_mag x = 0"
  show "is_zero x"
  proof (cases "f32_expo x = 0")
    case True
    with m show ?thesis using pow2_pos [of "- 149"] by (simp add: f32_mag_def is_zero_def)
  next
    case False
    have "0 < real (2 ^ 23 + f32_frac x) * pow2 (int (f32_expo x) - 150)"
      by (intro mult_pos_pos) simp_all
    with m False show ?thesis by (simp add: f32_mag_def)
  qed
qed (rule zero_mag)

lemma nonzero_mag:
  assumes "is_finite x" "\<not> is_zero x"
  shows "pow2 (- 149) \<le> f32_mag x"
proof (cases "f32_expo x = 0")
  case True
  with assms(2) have "1 \<le> f32_frac x" by (simp add: is_zero_def)
  then have "1 * pow2 (- 149) \<le> real (f32_frac x) * pow2 (- 149)"
    by (intro mult_right_mono) simp_all
  with True show ?thesis by (simp add: f32_mag_def)
next
  case False
  then have "pow2 (- 149) \<le> pow2 (int (f32_expo x) - 150)" by (intro pow2_mono) simp
  also have "\<dots> = 1 * pow2 (int (f32_expo x) - 150)" by simp
  also have "\<dots> \<le> real (2 ^ 23 + f32_frac x) * pow2 (int (f32_expo x) - 150)"
    by (intro mult_right_mono) simp_all
  finally show ?thesis using False by (simp add: f32_mag_def)
qed

lemma finite_mag_le_max:
  assumes "is_finite x"
  shows "f32_mag x \<le> FLT_MAX"
proof (cases "f32_expo x = 0")
  case True
  have "real (f32_frac x) \<le> 2 ^ 23" using f32_frac_less [of x] by simp
  then have "real (f32_frac x) * pow2 (- 149) \<le> 2 ^ 23 * pow2 (- 149)"
    by (intro mult_right_mono) simp_all
  also have "\<dots> \<le> FLT_MAX" by (simp add: pow2_def FLT_MAX_def)
  finally show ?thesis using True by (simp add: f32_mag_def)
next
  case False
  have "f32_frac x \<le> 2 ^ 23 - 1" using f32_frac_less [of x] by simp
  then have "real (2 ^ 23 + f32_frac x) \<le> real (2 ^ 23 + (2 ^ 23 - 1))"
    by (simp only: of_nat_le_iff add_le_cancel_left)
  then have f: "real (2 ^ 23 + f32_frac x) \<le> 2 ^ 24 - 1" by simp
  have "pow2 (int (f32_expo x) - 150) \<le> pow2 104"
    using assms by (intro pow2_mono) (simp add: is_finite_def)
  then have "real (2 ^ 23 + f32_frac x) * pow2 (int (f32_expo x) - 150)
      \<le> (2 ^ 24 - 1) * pow2 104"
    using f by (intro mult_mono) simp_all
  also have "\<dots> = FLT_MAX" by (simp add: pow2_def FLT_MAX_def)
  finally show ?thesis using False by (simp add: f32_mag_def)
qed

lemma pack_zero: "is_zero (pack s 0 0)" "f32_sign (pack s 0 0) = s"
  by (simp_all add: is_zero_def pack_fields)

lemma round_fin_le:
  assumes "0 \<le> a" "a \<le> pow2 j" "- 149 \<le> j" "j \<le> 127"
  shows "fin_le j (round_f32 s a)"
  using round_f32_le_pow2 [OF assms] by (simp add: fin_le_def is_finite_def)

lemma fin_leD: "fin_le j x \<Longrightarrow> is_finite x" "fin_le j x \<Longrightarrow> f32_mag x \<le> pow2 j"
  by (simp_all add: fin_le_def)

lemma fin_le_mono: "fin_le i x \<Longrightarrow> i \<le> j \<Longrightarrow> fin_le j x"
  using pow2_mono [of i j] by (auto simp: fin_le_def)

lemma zero_fin_le: "is_zero x \<Longrightarrow> fin_le j x"
  by (simp add: fin_le_def zero_finite zero_mag)

text \<open>Products.\<close>

lemma mul_finite_eq:
  "is_finite x \<Longrightarrow> is_finite y \<Longrightarrow>
   f32_mul x y = round_f32 (f32_sign x \<noteq> f32_sign y) (f32_mag x * f32_mag y)"
  by (simp add: f32_mul_def finite_not_special)

lemma mul_zero:
  assumes "is_finite x" "is_zero y"
  shows "is_zero (f32_mul x y)" "is_zero (f32_mul y x)"
  using assms
  by (simp_all add: mul_finite_eq zero_finite zero_mag round_f32_zero pack_zero)

lemma mul_fin_le:
  assumes "fin_le i x" "fin_le j y" "- 149 \<le> i + j" "i + j \<le> 127"
  shows "fin_le (i + j) (f32_mul x y)"
proof -
  have "f32_mag x * f32_mag y \<le> pow2 i * pow2 j"
    using assms(1,2) by (intro mult_mono) (simp_all add: fin_le_def)
  then have "f32_mag x * f32_mag y \<le> pow2 (i + j)" by (simp add: pow2_add)
  then show ?thesis
    using assms by (simp add: mul_finite_eq fin_leD round_fin_le)
qed

lemma mul_small_finite:
  assumes "is_finite x" "f32_mag x \<le> 1" "is_finite y"
  shows "is_finite (f32_mul x y)"
proof -
  have "f32_mag x * f32_mag y \<le> 1 * f32_mag y"
    using assms(2) by (intro mult_right_mono) simp_all
  also have "\<dots> \<le> FLT_MAX" using finite_mag_le_max [OF assms(3)] by simp
  finally show ?thesis
    using assms(1,3) by (simp add: mul_finite_eq is_finite_def round_f32_le_max)
qed

text \<open>Quotients.\<close>

lemma div_fin_le:
  assumes "fin_le i x" "is_finite y" "1 \<le> f32_mag y" "- 149 \<le> i" "i \<le> 127"
  shows "fin_le i (f32_div x y)"
proof -
  have nz: "\<not> is_zero y" using assms(3) zero_mag [of y] by auto
  have "f32_mag x / f32_mag y \<le> f32_mag x / 1"
    using assms(3) by (intro divide_left_mono) simp_all
  also have "\<dots> \<le> pow2 i" using assms(1) by (simp add: fin_le_def)
  finally have "f32_mag x / f32_mag y \<le> pow2 i" .
  then show ?thesis
    using assms nz by (simp add: f32_div_def finite_not_special fin_leD round_fin_le)
qed

text \<open>Sums.\<close>

lemma to_f32_fin_le:
  assumes "\<bar>r\<bar> \<le> pow2 j" "- 149 \<le> j" "j \<le> 127"
  shows "fin_le j (to_f32 r)"
  unfolding to_f32_def using assms by (intro round_fin_le) simp_all

lemma add_zero:
  assumes "is_zero x" "is_zero y"
  shows "is_zero (f32_add x y)"
  using assms by (simp add: f32_add_def finite_not_special zero_finite zero_valof pack_zero)

lemma add_fin_le:
  assumes "fin_le i x" "fin_le i y" "- 150 \<le> i" "i \<le> 126"
  shows "fin_le (i + 1) (f32_add x y)"
proof -
  have "\<bar>valof x + valof y\<bar> \<le> f32_mag x + f32_mag y"
    using abs_triangle_ineq [of "valof x" "valof y"] by simp
  also have "\<dots> \<le> pow2 i + pow2 i" using assms(1,2) by (intro add_mono) (simp_all add: fin_le_def)
  also have "\<dots> = pow2 (i + 1)"
  proof -
    have "pow2 1 = 2" by (simp add: pow2_def)
    then show ?thesis by (simp add: pow2_add)
  qed
  finally have "\<bar>valof x + valof y\<bar> \<le> pow2 (i + 1)" .
  then have "fin_le (i + 1) (to_f32 (valof x + valof y))"
    using assms(3,4) by (intro to_f32_fin_le) simp_all
  moreover have "fin_le (i + 1) (pack (f32_sign x \<and> f32_sign y) 0 0)"
    by (intro zero_fin_le pack_zero)
  ultimately show ?thesis
    using assms(1,2) by (simp add: f32_add_def finite_not_special fin_leD)
qed

lemma unat_neg:
  "unat (f32_neg x) = (if unat x < 2 ^ 31 then unat x + 2 ^ 31 else unat x - 2 ^ 31)"
proof -
  have lt: "unat x < 2 ^ 32" using unsigned_less [of x, where ?'a = nat] by simp
  have "unat (f32_neg x) = (unat x + 2 ^ 31) mod 2 ^ 32"
    by (simp add: f32_neg_def unat_word_ariths)
  also have "\<dots> = (if unat x < 2 ^ 31 then unat x + 2 ^ 31 else unat x - 2 ^ 31)"
  proof (cases "unat x < 2 ^ 31")
    case True
    then show ?thesis by simp
  next
    case False
    then have "unat x + 2 ^ 31 = (unat x - 2 ^ 31) + 2 ^ 32" by simp
    moreover have "unat x - 2 ^ 31 < 2 ^ 32" using lt by simp
    ultimately show ?thesis using False by (simp only: mod_add_self2 if_False) simp
  qed
  finally show ?thesis .
qed

lemma shift_fields:
  fixes u v K :: nat
  assumes "v = u + 256 * K" "0 < K"
  shows "v mod K = u mod K" "(v div K) mod 256 = (u div K) mod 256"
  using assms by simp_all

lemma neg_fields [simp]:
  "f32_expo (f32_neg x) = f32_expo x" "f32_frac (f32_neg x) = f32_frac x"
  "f32_sign (f32_neg x) = (\<not> f32_sign x)"
proof -
  have lt: "unat x < 2 ^ 32" using unsigned_less [of x, where ?'a = nat] by simp
  show "f32_sign (f32_neg x) = (\<not> f32_sign x)"
    using lt by (auto simp: f32_sign_def unat_neg)
  have "f32_expo (f32_neg x) = f32_expo x \<and> f32_frac (f32_neg x) = f32_frac x"
  proof (cases "unat x < 2 ^ 31")
    case True
    then have "unat (f32_neg x) = unat x + 256 * 2 ^ 23" by (simp add: unat_neg)
    from shift_fields [OF this] show ?thesis by (simp add: f32_expo_def f32_frac_def)
  next
    case False
    then have "unat x = unat (f32_neg x) + 256 * 2 ^ 23" by (simp add: unat_neg)
    from shift_fields [OF this] show ?thesis by (simp add: f32_expo_def f32_frac_def)
  qed
  then show "f32_expo (f32_neg x) = f32_expo x" "f32_frac (f32_neg x) = f32_frac x"
    by simp_all
qed

lemma neg_props [simp]:
  "is_finite (f32_neg x) = is_finite x" "is_zero (f32_neg x) = is_zero x"
  "is_nan (f32_neg x) = is_nan x" "is_inf (f32_neg x) = is_inf x"
  "f32_mag (f32_neg x) = f32_mag x" "fin_le j (f32_neg x) = fin_le j x"
  by (simp_all add: is_finite_def is_zero_def is_nan_def is_inf_def f32_mag_def fin_le_def)

lemma sub_fin_le:
  "fin_le i x \<Longrightarrow> fin_le i y \<Longrightarrow> - 150 \<le> i \<Longrightarrow> i \<le> 126 \<Longrightarrow> fin_le (i + 1) (f32_sub x y)"
  by (simp add: f32_sub_def add_fin_le)

lemma of_int_fin_le:
  assumes "\<bar>i\<bar> \<le> 2 ^ 31"
  shows "fin_le 31 (f32_of_int i)"
proof -
  have "\<bar>real_of_int i\<bar> \<le> 2 ^ 31" using assms by (metis of_int_abs of_int_le_iff of_int_numeral of_int_power)
  moreover have "pow2 31 = 2 ^ 31" by (simp add: pow2_def)
  ultimately show ?thesis
    unfolding f32_of_int_def by (intro to_f32_fin_le) simp_all
qed

lemma of_int_ge_one:
  assumes "1 \<le> i" "i \<le> 2 ^ 31"
  shows "1 \<le> f32_mag (f32_of_int i)"
proof -
  have a: "1 \<le> real_of_int i" "real_of_int i \<le> 2 ^ 31" using assms by simp_all
  have "pow2 0 \<le> f32_mag (round_f32 (real_of_int i < 0) \<bar>real_of_int i\<bar>)"
    using a by (intro round_f32_ge_pow2) (simp_all add: pow2_def)
  then show ?thesis by (simp add: f32_of_int_def to_f32_def)
qed

lemma of_nat_fin:
  assumes "n \<le> 2 ^ 31"
  shows "fin_le 31 (f32_of_int (int n))"
proof -
  have "int n \<le> 2 ^ 31" using assms by (metis of_nat_le_iff of_nat_numeral of_nat_power)
  then show ?thesis by (intro of_int_fin_le) simp
qed

lemma of_nat_ge_one:
  assumes "1 \<le> n" "n \<le> 2 ^ 31"
  shows "1 \<le> f32_mag (f32_of_int (int n))"
proof -
  have "int n \<le> 2 ^ 31" using assms(2) by (metis of_nat_le_iff of_nat_numeral of_nat_power)
  then show ?thesis using assms(1) by (intro of_int_ge_one) simp_all
qed

lemma ratio_fin:
  assumes "n \<le> 2 ^ 31" "1 \<le> d" "d \<le> 2 ^ 31"
  shows "fin_le 31 (f32_div (f32_of_int (int n)) (f32_of_int (int d)))"
  using of_nat_fin [OF assms(1)] fin_leD(1) [OF of_nat_fin [OF assms(3)]]
    of_nat_ge_one [OF assms(2,3)]
  by (rule div_fin_le) simp_all

lemma sqrt_zero: "is_zero x \<Longrightarrow> f32_sqrt x = x"
  by (simp add: f32_sqrt_def finite_not_special zero_finite)

lemma literals:
  "to_f32 0 = 0" "to_f32 (1 / 2) = 0x3F000000" "to_f32 1 = 0x3F800000" "to_f32 2 = 0x40000000"
  "to_f32 (1 / 10 ^ 8) = 0x322BCC77" "to_f32 (884279719003555 / 2 ^ 48) = 0x40490FDB"
  by (simp_all add: f32_eval)

lemma literal_values:
  "valof 0 = 0" "valof 0x3F000000 = 1 / 2" "valof 0x3F800000 = 1" "valof 0x40000000 = 2"
  "valof 0x40490FDB = 13176795 / 4194304" "0 < valof 0x322BCC77" "valof 0xBF800000 = - 1"
  by (simp_all add: f32_eval)

lemma literal_classes:
  "is_zero 0" "fin_le (- 1) 0x3F000000" "fin_le 0 0x3F800000" "fin_le 1 0x40000000"
  "fin_le 2 0x40490FDB" "is_finite 0x322BCC77" "fin_le 0 0xBF800000" "\<not> is_zero 0xBF800000"
  by (simp_all add: fin_le_def f32_eval)

lemma gt_zero_eps: "is_zero x \<Longrightarrow> \<not> f32_gt x 0x322BCC77"
  using literal_values(6) by (simp add: f32_gt_def zero_valof)

lemma mul_minus_one_zero:
  assumes "is_finite y"
  shows "is_zero (f32_mul 0xBF800000 y) \<longleftrightarrow> is_zero y"
proof
  assume "is_zero y"
  with literal_classes(7) show "is_zero (f32_mul 0xBF800000 y)"
    by (intro mul_zero(1)) (simp add: fin_le_def)
next
  assume z: "is_zero (f32_mul 0xBF800000 y)"
  show "is_zero y"
  proof (rule ccontr)
    assume nz: "\<not> is_zero y"
    have one: "is_finite 0xBF800000" "f32_mag 0xBF800000 = 1" by (simp_all add: f32_eval)
    have lo: "pow2 (- 149) \<le> f32_mag y" using assms nz by (rule nonzero_mag)
    have "f32_mag y \<le> FLT_MAX" using assms by (rule finite_mag_le_max)
    also have "FLT_MAX < pow2 128" by (simp add: FLT_MAX_def pow2_def)
    finally have hi: "f32_mag y < pow2 128" .
    have "pow2 (- 149) \<le> f32_mag (round_f32 (f32_sign 0xBF800000 \<noteq> f32_sign y) (f32_mag y))"
      using _ lo _ hi by (rule round_f32_ge_pow2) simp_all
    then have "pow2 (- 149) \<le> f32_mag (f32_mul 0xBF800000 y)"
      using assms one by (simp add: mul_finite_eq)
    with z zero_mag [of "f32_mul 0xBF800000 y"] pow2_pos [of "- 149"] show False by simp
  qed
qed

lemma ieee_fields [simp]:
  "f_of_int (ieee cosf sinf engine draw) = f32_of_int"
  "f_add (ieee cosf sinf engine draw) = f32_add"
  "f_sub (ieee cosf sinf engine draw) = f32_sub"
  "f_mul (ieee cosf sinf engine draw) = f32_mul"
  "f_div (ieee cosf sinf engine draw) = f32_div"
  "f_neg (ieee cosf sinf engine draw) = f32_neg"
  "f_gt (ieee cosf sinf engine draw) = f32_gt"
  "f_sqrt (ieee cosf sinf engine draw) = f32_sqrt"
  "f_cos (ieee cosf sinf engine draw) = cosf"
  "f_sin (ieee cosf sinf engine draw) = sinf"
  "f_zero (ieee cosf sinf engine draw) = 0"
  "f_half (ieee cosf sinf engine draw) = 0x3F000000"
  "f_one (ieee cosf sinf engine draw) = 0x3F800000"
  "f_two (ieee cosf sinf engine draw) = 0x40000000"
  "f_eps (ieee cosf sinf engine draw) = 0x322BCC77"
  "f_pi (ieee cosf sinf engine draw) = 0x40490FDB"
  "mt19937 (ieee cosf sinf engine draw) = engine"
  "uniform_real (ieee cosf sinf engine draw) = draw"
  by (simp_all only: ieee_def platform.select_convs literals)

section \<open>The reference platform\<close>

text \<open>The float nearest to \<open>\<pi>\<close> is \<open>13176795 / 4194304\<close>, a little above \<open>\<pi>\<close>: its cosine rounds to
  \<open>-1\<close>, its sine is negative and not a zero.  The bounds come from the Maclaurin series of
  the cosine at half that argument.\<close>

lemma cos_sum16:
  "(\<Sum>m<16. cos_coeff m * x ^ m)
   = 1 - x^2 / 2 + x^4 / 24 - x^6 / 720 + x^8 / 40320 - x^10 / 3628800 + x^12 / 479001600
     - x^14 / 87178291200"
  by (simp add: lessThan_nat_numeral lessThan_Suc cos_coeff_def fact_numeral)

lemma cos_half_pi_f:
  fixes h :: real
  assumes "h = 13176795 / 8388608"
  shows "- 1 / 2 ^ 23 \<le> cos h" and "cos h \<le> - 1 / 2 ^ 26"
proof -
  have "0 < h" by (simp add: assms)
  from Maclaurin_cos_expansion2 [OF this, of 16] obtain t where
    t: "cos h = (\<Sum>m<16. cos_coeff m * h ^ m) + (cos (t + 1 / 2 * real 16 * pi) / fact 16) * h ^ 16"
    by auto
  define S where "S = (\<Sum>m<16. cos_coeff m * h ^ m)"
  define R where "R = (cos (t + 1 / 2 * real 16 * pi) / fact 16) * h ^ 16"
  have S: "S \<le> - 1 / 2 ^ 25" "- 1 / 2 ^ 24 \<le> S"
    unfolding S_def cos_sum16 by (simp_all add: assms power_divide)
  have "\<bar>R\<bar> = \<bar>cos (t + 1 / 2 * real 16 * pi)\<bar> * (h ^ 16 / fact 16)"
    by (simp add: R_def abs_mult)
  also have "\<dots> \<le> 1 * (h ^ 16 / fact 16)"
    by (intro mult_right_mono abs_cos_le_one) (simp add: assms)
  also have "\<dots> \<le> 1 / 2 ^ 30" by (simp add: assms fact_numeral power_divide)
  finally have R: "\<bar>R\<bar> \<le> 1 / 2 ^ 30" .
  have c: "cos h = S + R" using t by (simp add: S_def R_def)
  show "- 1 / 2 ^ 23 \<le> cos h" "cos h \<le> - 1 / 2 ^ 26"
    using S R unfolding c by (simp_all add: abs_le_iff)
qed

lemma trig_pi_f:
  fixes p :: real
  assumes "p = 13176795 / 4194304"
  shows "- 1 \<le> sin p" and "sin p \<le> - 1 / 2 ^ 26" and "- 1 \<le> cos p" and "cos p \<le> - 1 + 1 / 2 ^ 45"
proof -
  define h :: real where "h = 13176795 / 8388608"
  have p: "p = 2 * h" by (simp add: assms h_def)
  note c = cos_half_pi_f [OF h_def]
  have c2: "(cos h)\<^sup>2 \<le> (1 / 2 ^ 23)\<^sup>2"
    using c by (intro abs_le_square_iff [THEN iffD1]) (simp add: abs_le_iff)
  have "0 < sin h" by (rule sin_gt_zero_02) (simp_all add: h_def)
  moreover have "(sin h)\<^sup>2 = 1 - (cos h)\<^sup>2" by (rule sin_squared_eq)
  then have "(1 / 2)\<^sup>2 \<le> (sin h)\<^sup>2" using c2 by (simp add: power2_eq_square)
  ultimately have s: "1 / 2 \<le> sin h"
    by (intro power2_le_imp_le [of "1 / 2" "sin h"]) simp_all
  show "- 1 \<le> sin p" "- 1 \<le> cos p" by simp_all
  have le: "sin h * cos h \<le> (1 / 2) * cos h"
    using s c(2) by (intro mult_right_mono_neg) simp_all
  have "sin p = 2 * (sin h * cos h)" by (simp add: p sin_double)
  also have "\<dots> \<le> 2 * ((1 / 2) * cos h)"
    using le by (rule mult_left_mono) simp
  also have "\<dots> = cos h" by simp
  also note c(2)
  finally show "sin p \<le> - 1 / 2 ^ 26" .
  have "cos p = 2 * (cos h)\<^sup>2 - 1" by (simp add: p cos_double_cos)
  then show "cos p \<le> - 1 + 1 / 2 ^ 45" using c2 by (simp add: power2_eq_square)
qed

lemma pi_f_class: "\<not> is_nan 0x40490FDB" "\<not> is_inf 0x40490FDB" "\<not> is_zero 0x40490FDB"
  by (simp_all add: f32_eval)

lemma cr_cos_pi: "cr_cos 0x40490FDB = 0xBF800000"
proof -
  define r where "r = cos (valof 0x40490FDB)"
  have r: "- 1 \<le> r" "r \<le> - 1 + 1 / 2 ^ 45"
    unfolding r_def using trig_pi_f(3,4) [OF literal_values(5)] by simp_all
  then have "r < 0" "1 - 1 / 2 ^ 25 \<le> \<bar>r\<bar>" "\<bar>r\<bar> \<le> 1" by simp_all
  then have "to_f32 r = pack True 127 0" by (simp add: to_f32_def round_near_one)
  also have "\<dots> = 0xBF800000" by (simp add: pack_def)
  finally show ?thesis by (simp add: cr_cos_def pi_f_class r_def)
qed

lemma cr_sin_pi:
  "is_finite (cr_sin 0x40490FDB)" "\<not> is_zero (cr_sin 0x40490FDB)"
proof -
  define r where "r = sin (valof 0x40490FDB)"
  have r: "- 1 \<le> r" "r \<le> - 1 / 2 ^ 26"
    unfolding r_def using trig_pi_f(1,2) [OF literal_values(5)] by simp_all
  have s: "cr_sin 0x40490FDB = round_f32 (r < 0) \<bar>r\<bar>"
    by (simp add: cr_sin_def pi_f_class r_def to_f32_def)
  have "\<bar>r\<bar> \<le> pow2 0" using r by simp
  then have "fin_le 0 (round_f32 (r < 0) \<bar>r\<bar>)" by (intro round_fin_le) simp_all
  then show "is_finite (cr_sin 0x40490FDB)" by (simp add: s fin_le_def)
  have "pow2 (- 26) \<le> \<bar>r\<bar>" using r by (simp add: pow2_def)
  moreover have "\<bar>r\<bar> < pow2 128" using r by (simp add: pow2_def)
  ultimately have "pow2 (- 26) \<le> f32_mag (round_f32 (r < 0) \<bar>r\<bar>)"
    by (intro round_f32_ge_pow2) simp_all
  then have "f32_mag (cr_sin 0x40490FDB) \<noteq> 0"
    unfolding s using pow2_pos [of "- 26"] by linarith
  then show "\<not> is_zero (cr_sin 0x40490FDB)" using zero_mag by blast
qed

lemma cr_at_zero: "cr_cos 0 = 0x3F800000" "cr_sin 0 = 0"
  by (simp_all add: cr_cos_def cr_sin_def literal_values literals f32_eval)

lemma cr_libm_finite: "libm_finite cr_cos" "libm_finite cr_sin"
proof -
  have "fin_le 0 (to_f32 (cos r))" "fin_le 0 (to_f32 (sin r))" for r
    by (rule to_f32_fin_le; simp)+
  then show "libm_finite cr_cos" "libm_finite cr_sin"
    by (auto simp: libm_finite_def cr_cos_def cr_sin_def fin_le_def finite_not_special)
qed

lemma quarter_draw_in_range: "draws_in_range quarter_draw"
proof -
  have "fin_le (- 1) (f32_mul (f32_neg 0x3F000000) 0x3F000000)"
    "fin_le (- 1) (f32_mul 0x3F000000 0x3F000000)"
    by (simp_all add: fin_le_def f32_mul_def f32_neg_def f32_eval)
  then show ?thesis by (simp add: draws_in_range_def quarter_draw_def literals)
qed

text \<open>The witnesses run \<open>create\<close> on the reference platform with radius \<^verbatim>\<open>1.0f\<close>, four by
  two segments and randomness \<^verbatim>\<open>0.25f\<close>, unless they say otherwise.\<close>

lemma sample_returns: "\<exists>mesh. create ref_platform 0x3F800000 4 2 0x3E800000 = Inr mesh"
  using fits_4_2 by (rule create_returns)

section \<open>The lengths of the arrays\<close>

text \<open>Claim C1.  Whatever the radius, the segment counts and the randomness, the vertex
  array that \<^verbatim>\<open>Sphere::create\<close> returns has exactly \<open>9 * (widthSegments' + 1) *
  (heightSegments' + 1)\<close> floats, where \<open>widthSegments' = max 3 widthSegments\<close> and
  \<open>heightSegments' = max 2 heightSegments\<close>.  (By \<open>create_eq\<close> a mesh is returned whenever
  the \<^verbatim>\<open>int\<close> expression of line 26 has a value.)\<close>

theorem vertices_length:
  "create P radius widthSegments heightSegments randomness = Inr mesh \<Longrightarrow>
   length (vertices mesh)
   = 9 * ((nat (clampW widthSegments) + 1) * (nat (clampH heightSegments) + 1))"
  by (rule length_vertices_create)

text \<open>The claim where both counts are clamped: \<open>-5\<close> to 3 and 1 to 2.\<close>

theorem vertices_length_witness:
  "\<exists>mesh. create ref_platform 0x3F800000 (- 5) 1 0x3E800000 = Inr mesh
     \<and> length (vertices mesh) = 108"
proof -
  have "\<exists>mesh. create ref_platform 0x3F800000 (- 5) 1 0x3E800000 = Inr mesh"
    using clamp_small(3) by (rule create_returns)
  then obtain mesh where m: "create ref_platform 0x3F800000 (- 5) 1 0x3E800000 = Inr mesh"
    by blast
  from vertices_length [OF m] have "length (vertices mesh) = 108" by (simp add: clamp_small)
  with m show ?thesis by blast
qed

text \<open>Claim C2.  The index array that \<^verbatim>\<open>Sphere::create\<close> returns has exactly
  \<open>3 * (2 * (heightSegments' - 1) * widthSegments')\<close> entries, for the clamped counts; its
  length is a multiple of 3.\<close>

theorem indices_length:
  assumes "create P radius widthSegments heightSegments randomness = Inr mesh"
  shows "length (indices mesh)
         = 3 * (2 * (nat (clampH heightSegments) - 1) * nat (clampW widthSegments))
       \<and> 3 dvd length (indices mesh)"
proof -
  have "length (indices mesh)
         = 3 * (2 * (nat (clampH heightSegments) - 1) * nat (clampW widthSegments))"
    using create_InrD(3) [OF assms] clamp_nat(2) [of heightSegments]
    by (simp add: triangles_values length_triangle_values)
  then show ?thesis by simp
qed

text \<open>The claim on the sample: 24 indices.\<close>

theorem indices_length_witness:
  "\<exists>mesh. create ref_platform 0x3F800000 4 2 0x3E800000 = Inr mesh \<and> length (indices mesh) = 24"
proof -
  from sample_returns obtain mesh
    where m: "create ref_platform 0x3F800000 4 2 0x3E800000 = Inr mesh" by blast
  from indices_length [OF m] have "length (indices mesh) = 24" by (simp add: clamp_4_2)
  with m show ?thesis by blast
qed

section \<open>Seam and poles\<close>

text \<open>Claim C3.  Seam closure: in every ring \<open>iy\<close> from 0 to \<open>heightSegments'\<close>, the three
  position floats stored for column \<open>widthSegments'\<close> are the very floats stored for
  column 0 of that ring.\<close>

theorem seam_closure:
  assumes "create P radius widthSegments heightSegments randomness = Inr mesh"
    and "iy \<le> nat (clampH heightSegments)"
  shows "position (vertices mesh)
           (vertex_index (nat (clampW widthSegments)) iy (nat (clampW widthSegments)))
       = position (vertices mesh) (vertex_index (nat (clampW widthSegments)) iy 0)"
proof -
  let ?w = "nat (clampW widthSegments)"
  from vertices_float_at [OF assms] obtain s where
    s: "\<And>ix j. ix \<le> ?w \<Longrightarrow> j < 9 \<Longrightarrow>
          float_at (vertices mesh) (vertex_index ?w iy ix) j
          = ring_records P radius randomness ?w (nat (clampH heightSegments)) iy s ! ix ! j"
    by blast
  have "0 < ?w" using clamp_nat(1) [of widthSegments] by simp
  from ring_seam [OF this, of P radius randomness "nat (clampH heightSegments)" iy s]
  show ?thesis
    by (simp add: position_def s rec_position_def)
qed

text \<open>The claim on ring 1 of the sample.\<close>

theorem seam_closure_witness:
  "\<exists>mesh. create ref_platform 0x3F800000 4 2 0x3E800000 = Inr mesh
     \<and> position (vertices mesh) (vertex_index 4 1 4) = position (vertices mesh) (vertex_index 4 1 0)"
proof -
  from sample_returns obtain mesh
    where m: "create ref_platform 0x3F800000 4 2 0x3E800000 = Inr mesh" by blast
  from seam_closure [OF m, of 1] m show ?thesis by (simp add: clamp_4_2)
qed

text \<open>Claim C4.  Pole collapse: on the rings \<open>iy = 0\<close> and \<open>iy = heightSegments'\<close>, the
  position stored for every column from 1 to \<open>widthSegments' - 1\<close> is the position stored
  for column 0 of that ring.\<close>

theorem pole_collapse:
  assumes "create P radius widthSegments heightSegments randomness = Inr mesh"
    and "iy = 0 \<or> iy = nat (clampH heightSegments)"
    and "1 \<le> ix" and "ix \<le> nat (clampW widthSegments) - 1"
  shows "position (vertices mesh) (vertex_index (nat (clampW widthSegments)) iy ix)
       = position (vertices mesh) (vertex_index (nat (clampW widthSegments)) iy 0)"
proof -
  let ?w = "nat (clampW widthSegments)"
  have iy: "iy \<le> nat (clampH heightSegments)" using assms(2) by auto
  from vertices_float_at [OF assms(1) iy] obtain s where
    s: "\<And>ix j. ix \<le> ?w \<Longrightarrow> j < 9 \<Longrightarrow>
          float_at (vertices mesh) (vertex_index ?w iy ix) j
          = ring_records P radius randomness ?w (nat (clampH heightSegments)) iy s ! ix ! j"
    by blast
  have ix: "0 < ix" "ix < ?w" using assms(3,4) clamp_nat(1) [of widthSegments] by simp_all
  from ring_pole [OF assms(2) ix, of P radius randomness s] ix
  show ?thesis
    by (simp add: position_def s rec_position_def)
qed

text \<open>The claim on column 3 of the south pole of the sample.\<close>

theorem pole_collapse_witness:
  "\<exists>mesh. create ref_platform 0x3F800000 4 2 0x3E800000 = Inr mesh
     \<and> position (vertices mesh) (vertex_index 4 2 3) = position (vertices mesh) (vertex_index 4 2 0)"
proof -
  from sample_returns obtain mesh
    where m: "create ref_platform 0x3F800000 4 2 0x3E800000 = Inr mesh" by blast
  from pole_collapse [OF m, of 2 3] m show ?thesis by (simp add: clamp_4_2)
qed

section \<open>Determinism\<close>

lemma declare_locals_init: "declare_locals P s = init_locals P"
  by (simp add: declare_locals_def init_locals_def)

lemma create_on_create:
  "fst (create_on P s radius ws hs randomness) = create P radius ws hs randomness"
  by (simp add: create_on_def create_def declare_locals_init Let_def split: sum.splits)

lemma run_calls_map:
  "run_calls P s calls = map (\<lambda>(radius, ws, hs, randomness). create P radius ws hs randomness) calls"
proof (induction calls arbitrary: s)
  case Nil
  then show ?case by simp
next
  case (Cons c calls)
  obtain radius ws hs randomness where c: "c = (radius, ws, hs, randomness)"
    by (cases c) auto
  obtain res s' where r: "create_on P s radius ws hs randomness = (res, s')"
    by (cases "create_on P s radius ws hs randomness") auto
  with create_on_create [of P s radius ws hs randomness]
  have "res = create P radius ws hs randomness" by simp
  then show ?case
    unfolding c by (simp add: Cons.IH r)
qed

text \<open>Claim C5.  Determinism: in a run of invocations, any two of them that receive the
  same radius, segment counts and randomness return the same vertex array and the same
  index array, namely what \<open>create\<close> gives for these parameters.  Each invocation seeds its
  engine with 12345, whatever the invocation before it left in the locals.\<close>

theorem create_deterministic:
  assumes "i < length calls" and "j < length calls" and "calls ! i = calls ! j"
  shows "run_calls P s calls ! i = run_calls P s calls ! j
       \<and> run_calls P s calls ! i
         = (case calls ! i of (radius, widthSegments, heightSegments, randomness) \<Rightarrow>
              create P radius widthSegments heightSegments randomness)"
  using assms by (simp add: run_calls_map)

text \<open>The claim on the first and the third of three invocations.\<close>

theorem create_deterministic_witness:
  "run_calls ref_platform (init_locals ref_platform)
     [(0x3F800000, 4, 2, 0x3E800000), (0x40000000, 5, 3, 0), (0x3F800000, 4, 2, 0x3E800000)] ! 0
   = run_calls ref_platform (init_locals ref_platform)
     [(0x3F800000, 4, 2, 0x3E800000), (0x40000000, 5, 3, 0), (0x3F800000, 4, 2, 0x3E800000)] ! 2"
  using create_deterministic [of 0
      "[(0x3F800000, 4, 2, 0x3E800000), (0x40000000, 5, 3, 0), (0x3F800000, 4, 2, 0x3E800000)]" 2
      ref_platform "init_locals ref_platform"]
  by simp

section \<open>The indices\<close>

text \<open>Claim C6.  Every entry of the returned index array is at least 0 and less than
  the number of vertices, \<open>(widthSegments' + 1) * (heightSegments' + 1)\<close>.\<close>

theorem indices_in_bounds:
  assumes "create P radius widthSegments heightSegments randomness = Inr mesh"
    and "i \<in> set (indices mesh)"
  shows "0 \<le> uint i
       \<and> unat i < (nat (clampW widthSegments) + 1) * (nat (clampH heightSegments) + 1)"
proof -
  let ?w = "nat (clampW widthSegments)" and ?h = "nat (clampH heightSegments)"
  from assms create_InrD(3) [OF assms(1)]
  obtain x where x: "x \<in> set (triangle_values (grid_of ?w ?h) ?w ?h)" "i = word_of_int x"
    by (auto simp: triangles_values grid_generate)
  from triangle_values_grid [OF x(1)] obtain a b
    where ab: "a \<le> ?h" "b \<le> ?w" "x = int (vertex_index ?w a b)" by blast
  have "unat i = vertex_index ?w a b mod 2 ^ 16"
    unfolding x(2) ab(3) by (simp add: unat_of_nat)
  also have "\<dots> \<le> vertex_index ?w a b" by simp
  also have "\<dots> < (?w + 1) * (?h + 1)" using ab(1,2) by (rule vertex_index_less)
  finally show ?thesis by simp
qed

text \<open>The claim on the first index of the sample, which has 15 vertices.\<close>

theorem indices_in_bounds_witness:
  "\<exists>mesh. create ref_platform 0x3F800000 4 2 0x3E800000 = Inr mesh \<and> indices mesh \<noteq> []
     \<and> unat (hd (indices mesh)) < 15"
proof -
  from sample_returns obtain mesh
    where m: "create ref_platform 0x3F800000 4 2 0x3E800000 = Inr mesh" by blast
  have "indices mesh = triangles (l_grid (generate ref_platform 0x3F800000 0x3E800000 4 2
      (init_locals ref_platform))) 4 2"
    using create_InrD(3) [OF m] by (simp add: clamp_4_2)
  then have "length (indices mesh) = 24"
    by (simp add: triangles_values length_triangle_values)
  then have ne: "indices mesh \<noteq> []" by auto
  then have "hd (indices mesh) \<in> set (indices mesh)" by simp
  from indices_in_bounds [OF m this] ne m show ?thesis by (simp add: clamp_4_2)
qed

text \<open>Claim C10.  The grid holds the vertex counter as \<^verbatim>\<open>int\<close>s; each index pushed is the
  cast of a grid value to 16 bits, that is the value modulo 65536.  The returned indices are
  the grid values themselves exactly when the number of vertices
  \<open>(widthSegments' + 1) * (heightSegments' + 1)\<close> is at most 65536.\<close>

theorem index_truncation:
  assumes "create P radius widthSegments heightSegments randomness = Inr mesh"
  defines "w \<equiv> nat (clampW widthSegments)" and "h \<equiv> nat (clampH heightSegments)"
  defines "g \<equiv> l_grid (generate P radius randomness w h (init_locals P))"
  shows "(\<forall>iy ix. iy \<le> h \<longrightarrow> ix \<le> w \<longrightarrow> g ! iy ! ix = int (vertex_index w iy ix))
       \<and> indices mesh = map word_of_int (triangle_values g w h)
       \<and> (\<forall>k < length (indices mesh).
             uint (indices mesh ! k) = triangle_values g w h ! k mod 65536)
       \<and> (map uint (indices mesh) = triangle_values g w h \<longleftrightarrow> (w + 1) * (h + 1) \<le> 65536)"
proof -
  have g: "g = grid_of w h" by (simp add: g_def grid_generate)
  have ind: "indices mesh = map word_of_int (triangle_values g w h)"
    using create_InrD(3) [OF assms(1)] by (simp add: g_def w_def h_def triangles_values)
  have wh: "2 \<le> h" "0 < w"
    using clamp_nat(1) [of widthSegments] clamp_nat(2) [of heightSegments]
    by (simp_all add: w_def h_def)
  have nth: "uint (indices mesh ! k) = triangle_values g w h ! k mod 65536"
    if "k < length (indices mesh)" for k
    using that by (simp add: ind uint_word_of_int)
  have iff: "map uint (indices mesh) = triangle_values g w h \<longleftrightarrow> (w + 1) * (h + 1) \<le> 65536"
  proof
    assume eq: "map uint (indices mesh) = triangle_values g w h"
    have "int (vertex_index w h w) \<in> set (triangle_values g w h)"
      unfolding g using wh by (rule last_vertex_emitted)
    then obtain i where "i \<in> set (indices mesh)" "uint i = int (vertex_index w h w)"
      unfolding eq [symmetric] by auto
    moreover have "uint i < 2 ^ LENGTH(16)" by (rule uint_lt2p)
    ultimately have "vertex_index w h w < 65536" by simp
    moreover have "vertex_index w h w + 1 = (w + 1) * (h + 1)"
      by (simp add: vertex_index_def)
    ultimately show "(w + 1) * (h + 1) \<le> 65536" by linarith
  next
    assume small: "(w + 1) * (h + 1) \<le> 65536"
    have "uint (word_of_int x :: 16 word) = x" if "x \<in> set (triangle_values g w h)" for x
    proof -
      from that obtain a b where ab: "a \<le> h" "b \<le> w" "x = int (vertex_index w a b)"
        unfolding g using triangle_values_grid by blast
      have "vertex_index w a b < (w + 1) * (h + 1)" using ab(1,2) by (rule vertex_index_less)
      with small have "vertex_index w a b < 65536" by linarith
      then have "int (vertex_index w a b) mod 2 ^ LENGTH(16) = int (vertex_index w a b)"
        by simp
      then show ?thesis unfolding ab(3) by (simp only: uint_word_of_int)
    qed
    then show "map uint (indices mesh) = triangle_values g w h"
      unfolding ind by (simp add: map_idI)
  qed
  show ?thesis using g ind nth iff by (simp add: grid_of_nth)
qed

text \<open>The claim on a mesh of 256 by 257 vertices, more than 65536: the indices are not the
  grid values.\<close>

theorem index_truncation_witness:
  "\<exists>mesh. create ref_platform 0x3F800000 255 256 0x3E800000 = Inr mesh
     \<and> map uint (indices mesh)
       \<noteq> triangle_values (l_grid (generate ref_platform 0x3F800000 0x3E800000 255 256
             (init_locals ref_platform))) 255 256"
proof -
  have "\<exists>mesh. create ref_platform 0x3F800000 255 256 0x3E800000 = Inr mesh"
    using clamp_large(3) by (rule create_returns)
  then obtain mesh where m: "create ref_platform 0x3F800000 255 256 0x3E800000 = Inr mesh"
    by blast
  have "\<not> (nat (clampW 255) + 1) * (nat (clampH 256) + 1) \<le> 65536"
    by (simp add: clamp_large)
  with index_truncation [OF m]
  have "map uint (indices mesh)
      \<noteq> triangle_values (l_grid (generate ref_platform 0x3F800000 0x3E800000 (nat (clampW 255))
          (nat (clampH 256)) (init_locals ref_platform))) (nat (clampW 255)) (nat (clampH 256))"
    by blast
  then have "map uint (indices mesh)
      \<noteq> triangle_values (l_grid (generate ref_platform 0x3F800000 0x3E800000 255 256
             (init_locals ref_platform))) 255 256"
    unfolding clamp_large(1,2) .
  with m show ?thesis by blast
qed

section \<open>The layout of a vertex\<close>

text \<open>Claim C9.  The vertex of column \<open>ix\<close> of ring \<open>iy\<close> occupies nine consecutive floats
  of the returned array.  The fourth is the constant \<^verbatim>\<open>1.0f\<close>; the last two are
  \<open>u + uOffset\<close> and \<open>1 - v\<close>, with \<open>u = ix / widthSegments'\<close>, \<open>v = iy / heightSegments'\<close>,
  and \<open>uOffset\<close> equal to \<open>0.5 / widthSegments'\<close> on ring 0, to \<open>-0.5 / widthSegments'\<close> on
  ring \<open>heightSegments'\<close>, and to \<^verbatim>\<open>0.0f\<close> on every other ring.\<close>

theorem vertex_layout:
  assumes "create P radius widthSegments heightSegments randomness = Inr mesh"
    and "iy \<le> nat (clampH heightSegments)" and "ix \<le> nat (clampW widthSegments)"
  shows "9 * vertex_index (nat (clampW widthSegments)) iy ix + 8 < length (vertices mesh)
       \<and> float_at (vertices mesh) (vertex_index (nat (clampW widthSegments)) iy ix) 3 = f_one P
       \<and> float_at (vertices mesh) (vertex_index (nat (clampW widthSegments)) iy ix) 7
         = f_add P (f_div P (f_of_int P (int ix)) (f_of_int P (int (nat (clampW widthSegments)))))
             (if iy = 0
              then f_div P (f_half P) (f_of_int P (int (nat (clampW widthSegments))))
              else if iy = nat (clampH heightSegments)
              then f_div P (f_neg P (f_half P)) (f_of_int P (int (nat (clampW widthSegments))))
              else f_zero P)
       \<and> float_at (vertices mesh) (vertex_index (nat (clampW widthSegments)) iy ix) 8
         = f_sub P (f_one P)
             (f_div P (f_of_int P (int iy)) (f_of_int P (int (nat (clampH heightSegments)))))"
proof -
  let ?w = "nat (clampW widthSegments)" and ?h = "nat (clampH heightSegments)"
  from vertices_float_at [OF assms(1,2)] obtain s where
    s: "\<And>ix j. ix \<le> ?w \<Longrightarrow> j < 9 \<Longrightarrow>
          float_at (vertices mesh) (vertex_index ?w iy ix) j
          = ring_records P radius randomness ?w ?h iy s ! ix ! j"
    by blast
  have "vertex_index ?w iy ix < (?w + 1) * (?h + 1)"
    using assms(2,3) by (rule vertex_index_less)
  then have "9 * vertex_index ?w iy ix + 8 < 9 * ((?w + 1) * (?h + 1))" by simp
  then have "9 * vertex_index ?w iy ix + 8 < length (vertices mesh)"
    by (simp only: length_vertices_create [OF assms(1)])
  then show ?thesis
    using assms(3) by (simp add: s ring_layout ring_uOffset_def ring_v_def)
qed

text \<open>The claim on column 3 of ring 2 of the sample: \<open>u = 0.75\<close>, \<open>uOffset = -0.125\<close> and
  \<open>v = 1\<close>, so that the last two floats are \<^verbatim>\<open>0.625f\<close> and \<^verbatim>\<open>0.0f\<close>.\<close>

theorem vertex_layout_witness:
  "\<exists>mesh. create ref_platform 0x3F800000 4 2 0x3E800000 = Inr mesh
     \<and> float_at (vertices mesh) (vertex_index 4 2 3) 3 = 0x3F800000
     \<and> float_at (vertices mesh) (vertex_index 4 2 3) 7 = 0x3F200000
     \<and> float_at (vertices mesh) (vertex_index 4 2 3) 8 = 0"
proof -
  from sample_returns obtain mesh
    where m: "create ref_platform 0x3F800000 4 2 0x3E800000 = Inr mesh" by blast
  have "f32_add (f32_div (f32_of_int 3) (f32_of_int 4)) (f32_div (f32_neg 0x3F000000) (f32_of_int 4))
      = 0x3F200000"
    "f32_sub 0x3F800000 (f32_div (f32_of_int 2) (f32_of_int 2)) = 0"
    by (simp_all add: f32_add_def f32_sub_def f32_div_def f32_neg_def f32_of_int_def f32_eval)
  with vertex_layout [OF m, of 2 3] m show ?thesis
    by (simp add: clamp_4_2 ref_platform_def)
qed

section \<open>The scenario with the poles on the axis\<close>

lemma rr_one:
  assumes "fin_le (- 1) d"
  shows "f32_add 0x3F800000 (f32_mul (f32_mul (f32_mul d 0x40000000) 0) 0x3F800000) = 0x3F800000"
proof -
  have "fin_le (- 1 + 1) (f32_mul d 0x40000000)"
    by (rule mul_fin_le [OF assms literal_classes(4)]) simp_all
  then have "is_finite (f32_mul d 0x40000000)" by (simp add: fin_le_def)
  then have z0: "is_zero (f32_mul (f32_mul d 0x40000000) 0)"
    using literal_classes(1) by (rule mul_zero(1))
  have one: "is_finite 0x3F800000" using literal_classes(3) by (simp add: fin_le_def)
  have z: "is_zero (f32_mul (f32_mul (f32_mul d 0x40000000) 0) 0x3F800000)"
    using one z0 by (rule mul_zero(2))
  show ?thesis
    using one zero_finite [OF z] zero_valof [OF z]
    by (simp add: f32_add_def finite_not_special literal_values literals)
qed

lemma scenario_consts:
  "f32_neg 0x3F800000 = 0xBF800000"
  "f32_div (f32_of_int 0) (f32_of_int 4) = 0"
  "f32_div (f32_of_int 0) (f32_of_int 2) = 0"
  "f32_div (f32_of_int 2) (f32_of_int 2) = 0x3F800000"
  "f32_mul (f32_mul 0 0x40490FDB) 0x40000000 = 0"
  "f32_mul 0 0x40490FDB = 0"
  "f32_mul 0 0x40000000 = 0"
  "f32_mul 0x3F800000 0x40490FDB = 0x40490FDB"
  "f32_mul 0xBF800000 0x3F800000 = 0xBF800000"
  "f32_mul 0xBF800000 0 = 0x80000000"
  "f32_mul 0x3F800000 0x3F800000 = 0x3F800000"
  "f32_mul 0x3F800000 0 = 0"
  "f32_mul 0 0 = 0"
  "f32_mul 0x3F800000 0xBF800000 = 0xBF800000"
  by (simp_all add: f32_neg_def f32_div_def f32_mul_def f32_of_int_def f32_eval)

lemma place_first_vertex:
  assumes "draws_in_range draw" and "w \<noteq> 0"
  shows "l_vertex (place (ieee cosf sinf engine draw) 0x3F800000 0 w h iy v u 0 s)
       = (f32_mul (f32_mul 0xBF800000 (cosf (f32_mul (f32_mul u 0x40490FDB) 0x40000000)))
            (sinf (f32_mul v 0x40490FDB)),
          f32_mul 0x3F800000 (cosf (f32_mul v 0x40490FDB)),
          f32_mul (f32_mul 0x3F800000 (sinf (f32_mul (f32_mul u 0x40490FDB) 0x40000000)))
            (sinf (f32_mul v 0x40490FDB)))"
proof -
  obtain d g where dg: "draw (f32_neg 0x3F000000) 0x3F000000 (l_rng s) = (d, g)"
    by (cases "draw (f32_neg 0x3F000000) 0x3F000000 (l_rng s)") auto
  have d: "fin_le (- 1) d"
    using assms(1) dg by (auto simp: draws_in_range_def literals dest: spec [of _ "l_rng s"])
  show ?thesis
    using assms(2) by (simp add: place_def dg Let_def rr_one [OF d] scenario_consts)
qed

lemma ring_first_position:
  assumes "draws_in_range draw" and "w \<noteq> 0"
  shows "rec_position (ring_records (ieee cosf sinf engine draw) 0x3F800000 0 w h iy s ! 0)
       = l_vertex (place (ieee cosf sinf engine draw) 0x3F800000 0 w h iy
           (ring_v (ieee cosf sinf engine draw) h iy)
           (f32_div (f32_of_int 0) (f32_of_int (int w))) 0 (s\<lparr>l_verticesRow := []\<rparr>))"
  by (simp add: ring_record_nth position_pushed)

lemma scenario_positions:
  assumes dr: "draws_in_range draw" and c0: "cosf 0 = 0x3F800000" and s0: "sinf 0 = 0"
    and m: "create (ieee cosf sinf engine draw) 0x3F800000 4 2 0 = Inr mesh"
    and ix: "ix \<le> 4"
  shows "position (vertices mesh) (vertex_index 4 0 ix) = (0x80000000, 0x3F800000, 0)"
    and "position (vertices mesh) (vertex_index 4 2 ix)
         = (f32_mul 0xBF800000 (sinf 0x40490FDB), f32_mul 0x3F800000 (cosf 0x40490FDB),
            f32_mul 0 (sinf 0x40490FDB))"
    and "float_at (vertices mesh) (vertex_index 4 0 ix) 3 = 0x3F800000"
    and "float_at (vertices mesh) (vertex_index 4 2 ix) 3 = 0x3F800000"
proof -
  let ?P = "ieee cosf sinf engine draw"
  have pos: "\<exists>s. position (vertices mesh) (vertex_index 4 iy ix)
      = l_vertex (place ?P 0x3F800000 0 4 2 iy (ring_v ?P 2 iy)
           (f32_div (f32_of_int 0) (f32_of_int (int 4))) 0 s)
      \<and> float_at (vertices mesh) (vertex_index 4 iy ix) 3 = 0x3F800000"
    if iy: "iy = 0 \<or> iy = 2" for iy
  proof -
    have "iy \<le> nat (clampH 2)" using iy by (auto simp: clamp_4_2)
    from vertices_float_at [OF m this] obtain s where
      s: "\<And>ix j. ix \<le> 4 \<Longrightarrow> j < 9 \<Longrightarrow>
            float_at (vertices mesh) (vertex_index 4 iy ix) j
            = ring_records ?P 0x3F800000 0 4 2 iy s ! ix ! j"
      by (auto simp: clamp_4_2)
    have "position (vertices mesh) (vertex_index 4 iy ix)
        = rec_position (ring_records ?P 0x3F800000 0 4 2 iy s ! ix)"
      using ix by (simp add: position_def rec_position_def s)
    also have "\<dots> = rec_position (ring_records ?P 0x3F800000 0 4 2 iy s ! 0)"
      using iy ix by (intro ring_pole_positions) simp_all
    also have "\<dots> = l_vertex (place ?P 0x3F800000 0 4 2 iy (ring_v ?P 2 iy)
           (f32_div (f32_of_int 0) (f32_of_int (int 4))) 0 (s\<lparr>l_verticesRow := []\<rparr>))"
      using dr by (rule ring_first_position) simp
    finally have "position (vertices mesh) (vertex_index 4 iy ix)
        = l_vertex (place ?P 0x3F800000 0 4 2 iy (ring_v ?P 2 iy)
           (f32_div (f32_of_int 0) (f32_of_int (int 4))) 0 (s\<lparr>l_verticesRow := []\<rparr>))" .
    moreover have "float_at (vertices mesh) (vertex_index 4 iy ix) 3 = 0x3F800000"
      using ix ring_layout(1) [of ix 4 ?P "0x3F800000" 0 2 iy s] by (simp add: s)
    ultimately show ?thesis by blast
  qed
  have v: "ring_v ?P 2 0 = 0" "ring_v ?P 2 2 = 0x3F800000"
    by (simp_all add: ring_v_def scenario_consts)
  from pos [of 0] show "position (vertices mesh) (vertex_index 4 0 ix) = (0x80000000, 0x3F800000, 0)"
    and "float_at (vertices mesh) (vertex_index 4 0 ix) 3 = 0x3F800000"
    by (auto simp: place_first_vertex [OF dr] v scenario_consts c0 s0)
  from pos [of 2] show "position (vertices mesh) (vertex_index 4 2 ix)
         = (f32_mul 0xBF800000 (sinf 0x40490FDB), f32_mul 0x3F800000 (cosf 0x40490FDB),
            f32_mul 0 (sinf 0x40490FDB))"
    and "float_at (vertices mesh) (vertex_index 4 2 ix) 3 = 0x3F800000"
    by (auto simp: place_first_vertex [OF dr] v scenario_consts c0 s0)
qed

lemma scenario_lengths:
  assumes "create P radius 4 2 randomness = Inr mesh"
  shows "length (vertices mesh) = 135" and "length (indices mesh) = 24"
  using create_InrD(2,3) [OF assms]
  by (simp_all add: clamp_4_2 length_vertices_generate triangles_values length_triangle_values)

lemma f32_is_consts:
  "f32_is 0 0x80000000" "f32_is 0 0" "f32_is 1 0x3F800000" "f32_is (- 1) 0xBF800000"
  by (simp_all add: f32_is_def f32_eval)

lemma f32_is_zero: "is_zero x \<Longrightarrow> f32_is 0 x"
  by (simp add: f32_is_def zero_valof finite_not_special zero_finite)

text \<open>Claim C7, as amended.  With radius \<^verbatim>\<open>1.0f\<close>, four by two segments and randomness
  \<^verbatim>\<open>0.0f\<close>, \<^verbatim>\<open>Sphere::create\<close> returns a mesh of 135 floats and 24 indices.  The five
  vertices of ring 0 have the position \<open>(-0.0, 1, 0)\<close> and fourth float 1, which are the
  numbers \<open>(0, 1, 0, 1)\<close>.  The five vertices of ring 2 have one and the same position
  \<open>(x, -1, z)\<close> and fourth float 1, where \<open>z = 0.0f * sinf(\<pi>\<^sub>f)\<close> is a zero and
  \<open>x = -1.0f * sinf(\<pi>\<^sub>f)\<close> is a zero only if \<open>sinf(\<pi>\<^sub>f)\<close> is one; \<open>\<pi>\<^sub>f\<close> is
  \<^verbatim>\<open>static_cast<float>(M_PI)\<close>.  This holds with binary32 arithmetic for every distribution
  with draws between \<open>-0.5\<close> and \<open>0.5\<close> and every C library with \<open>cosf(0) = 1\<close>,
  \<open>sinf(0) = 0\<close>, \<open>cosf(\<pi>\<^sub>f) = -1\<close> and \<open>sinf(\<pi>\<^sub>f)\<close> finite.\<close>

theorem pole_scenario:
  assumes "draws_in_range draw"
    and "cosf 0 = 0x3F800000" and "sinf 0 = 0"
    and "cosf 0x40490FDB = 0xBF800000" and "is_finite (sinf 0x40490FDB)"
  shows "\<exists>mesh. create (ieee cosf sinf engine draw) (to_f32 1) 4 2 (to_f32 0) = Inr mesh
     \<and> length (vertices mesh) = 135 \<and> length (indices mesh) = 24
     \<and> (\<forall>ix\<le>4. position (vertices mesh) (vertex_index 4 0 ix) = (0x80000000, 0x3F800000, 0)
           \<and> point_is (0, 1, 0, 1) (vertices mesh) (vertex_index 4 0 ix))
     \<and> (\<forall>ix\<le>4. position (vertices mesh) (vertex_index 4 2 ix)
             = (f32_mul 0xBF800000 (sinf 0x40490FDB), 0xBF800000, f32_mul 0 (sinf 0x40490FDB))
           \<and> f32_is (- 1) (float_at (vertices mesh) (vertex_index 4 2 ix) 1)
           \<and> f32_is 0 (float_at (vertices mesh) (vertex_index 4 2 ix) 2)
           \<and> f32_is 1 (float_at (vertices mesh) (vertex_index 4 2 ix) 3))
     \<and> (is_zero (f32_mul 0xBF800000 (sinf 0x40490FDB)) \<longleftrightarrow> is_zero (sinf 0x40490FDB))"
proof -
  let ?P = "ieee cosf sinf engine draw"
  have "\<exists>mesh. create ?P 0x3F800000 4 2 0 = Inr mesh" using fits_4_2 by (rule create_returns)
  then obtain mesh where m: "create ?P 0x3F800000 4 2 0 = Inr mesh" by blast
  note p = scenario_positions [OF assms(1,2,3) m]
  have z: "is_zero (f32_mul 0 (sinf 0x40490FDB))"
    using assms(5) literal_classes(1) by (rule mul_zero(2))
  have r0: "position (vertices mesh) (vertex_index 4 0 ix) = (0x80000000, 0x3F800000, 0)
      \<and> point_is (0, 1, 0, 1) (vertices mesh) (vertex_index 4 0 ix)" if "ix \<le> 4" for ix
    using p(1,3) [OF that] by (simp add: point_is_def position_def f32_is_consts)
  have r2: "position (vertices mesh) (vertex_index 4 2 ix)
             = (f32_mul 0xBF800000 (sinf 0x40490FDB), 0xBF800000, f32_mul 0 (sinf 0x40490FDB))
           \<and> f32_is (- 1) (float_at (vertices mesh) (vertex_index 4 2 ix) 1)
           \<and> f32_is 0 (float_at (vertices mesh) (vertex_index 4 2 ix) 2)
           \<and> f32_is 1 (float_at (vertices mesh) (vertex_index 4 2 ix) 3)" if "ix \<le> 4" for ix
    using p(2,4) [OF that] z
    by (simp add: position_def f32_is_consts f32_is_zero assms(4) scenario_consts)
  show ?thesis
    using m scenario_lengths [OF m] r0 r2 mul_minus_one_zero [OF assms(5)]
    by (auto simp: literals)
qed

text \<open>The amended claim on the reference platform, whose sine of \<open>\<pi>\<^sub>f\<close> is not a zero.\<close>

theorem pole_scenario_witness:
  "\<exists>mesh. create ref_platform (to_f32 1) 4 2 (to_f32 0) = Inr mesh
     \<and> length (vertices mesh) = 135 \<and> length (indices mesh) = 24
     \<and> position (vertices mesh) (vertex_index 4 0 3) = (0x80000000, 0x3F800000, 0)
     \<and> position (vertices mesh) (vertex_index 4 2 3)
         = (f32_mul 0xBF800000 (cr_sin 0x40490FDB), 0xBF800000, f32_mul 0 (cr_sin 0x40490FDB))
     \<and> \<not> is_zero (f32_mul 0xBF800000 (cr_sin 0x40490FDB))"
proof -
  from pole_scenario [OF quarter_draw_in_range cr_at_zero cr_cos_pi cr_sin_pi(1), of "\<lambda>seed. seed"]
  obtain mesh where m: "create ref_platform (to_f32 1) 4 2 (to_f32 0) = Inr mesh"
     "length (vertices mesh) = 135" "length (indices mesh) = 24"
     "\<forall>ix\<le>4. position (vertices mesh) (vertex_index 4 0 ix) = (0x80000000, 0x3F800000, 0)
           \<and> point_is (0, 1, 0, 1) (vertices mesh) (vertex_index 4 0 ix)"
     "\<forall>ix\<le>4. position (vertices mesh) (vertex_index 4 2 ix)
             = (f32_mul 0xBF800000 (cr_sin 0x40490FDB), 0xBF800000, f32_mul 0 (cr_sin 0x40490FDB))
           \<and> f32_is (- 1) (float_at (vertices mesh) (vertex_index 4 2 ix) 1)
           \<and> f32_is 0 (float_at (vertices mesh) (vertex_index 4 2 ix) 2)
           \<and> f32_is 1 (float_at (vertices mesh) (vertex_index 4 2 ix) 3)"
     "is_zero (f32_mul 0xBF800000 (cr_sin 0x40490FDB)) \<longleftrightarrow> is_zero (cr_sin 0x40490FDB)"
    unfolding ref_platform_def by blast
  have "(3::nat) \<le> 4" by simp
  with m cr_sin_pi(2) show ?thesis by blast
qed

text \<open>Claim C7 as the specification words it fails on the reference platform: the first
  float of the vertices of ring 2 is \<open>-1.0f * sinf(\<pi>\<^sub>f)\<close>, about \<open>8.74e-8\<close>, and not 0.\<close>

theorem scenario_counterexample: "\<not> scenario_as_specified ref_platform"
proof
  assume "scenario_as_specified ref_platform"
  then obtain mesh where m: "create ref_platform (to_f32 1) 4 2 (to_f32 0) = Inr mesh"
    and r2: "\<forall>ix\<le>4. point_is (0, - 1, 0, 1) (vertices mesh) (vertex_index 4 2 ix)"
    unfolding scenario_as_specified_def by blast
  from r2 have "f32_is 0 (float_at (vertices mesh) (vertex_index 4 2 0) 0)"
    by (simp add: point_is_def)
  then have v: "valof (float_at (vertices mesh) (vertex_index 4 2 0) 0) = 0"
    by (simp add: f32_is_def)
  have m': "create (ieee cr_cos cr_sin (\<lambda>seed. seed) quarter_draw) 0x3F800000 4 2 0 = Inr mesh"
    using m by (simp only: ref_platform_def literals)
  have "position (vertices mesh) (vertex_index 4 2 0)
         = (f32_mul 0xBF800000 (cr_sin 0x40490FDB), f32_mul 0x3F800000 (cr_cos 0x40490FDB),
            f32_mul 0 (cr_sin 0x40490FDB))"
    using quarter_draw_in_range cr_at_zero m' by (rule scenario_positions(2)) simp
  then have "float_at (vertices mesh) (vertex_index 4 2 0) 0 = f32_mul 0xBF800000 (cr_sin 0x40490FDB)"
    by (simp add: position_def)
  with v have "f32_mag (f32_mul 0xBF800000 (cr_sin 0x40490FDB)) = 0"
    using abs_valof [of "f32_mul 0xBF800000 (cr_sin 0x40490FDB)"] by simp
  then have "is_zero (f32_mul 0xBF800000 (cr_sin 0x40490FDB))" by (simp add: mag_zero_iff)
  then have "is_zero (cr_sin 0x40490FDB)" by (simp add: mul_minus_one_zero [OF cr_sin_pi(1)])
  with cr_sin_pi(2) show False by simp
qed

section \<open>The degenerate radius\<close>

lemma zero_rr:
  assumes "fin_le (- 1) d" "is_finite randomness" "is_zero radius"
  shows "is_zero (f32_add radius (f32_mul (f32_mul (f32_mul d 0x40000000) randomness) radius))"
proof -
  have "fin_le (- 1 + 1) (f32_mul d 0x40000000)"
    by (rule mul_fin_le [OF assms(1) literal_classes(4)]) simp_all
  then have t1: "is_finite (f32_mul d 0x40000000)" "f32_mag (f32_mul d 0x40000000) \<le> 1"
    by (simp_all add: fin_le_def)
  then have "is_finite (f32_mul (f32_mul d 0x40000000) randomness)"
    using assms(2) by (rule mul_small_finite)
  then have "is_zero (f32_mul (f32_mul (f32_mul d 0x40000000) randomness) radius)"
    using assms(3) by (rule mul_zero(1))
  with assms(3) show ?thesis by (rule add_zero)
qed

lemma angle_finite:
  assumes "fin_le 31 u"
  shows "is_finite (f32_mul (f32_mul u 0x40490FDB) 0x40000000)" "is_finite (f32_mul u 0x40490FDB)"
proof -
  have a: "fin_le (31 + 2) (f32_mul u 0x40490FDB)"
    by (rule mul_fin_le [OF assms literal_classes(5)]) simp_all
  then show "is_finite (f32_mul u 0x40490FDB)" by (simp add: fin_le_def)
  have "fin_le (31 + 2 + 1) (f32_mul (f32_mul u 0x40490FDB) 0x40000000)"
    by (rule mul_fin_le [OF a literal_classes(4)]) simp_all
  then show "is_finite (f32_mul (f32_mul u 0x40490FDB) 0x40000000)" by (simp add: fin_le_def)
qed

lemma place_zero:
  assumes lib: "libm_finite cosf" "libm_finite sinf" and dr: "draws_in_range draw"
    and q: "is_finite randomness" and r: "is_zero radius"
    and uv: "fin_le 31 u" "fin_le 31 v"
    and s: "zero_locals s"
  shows "zero_locals (place (ieee cosf sinf engine draw) radius randomness w h iy v u ix s)"
proof -
  obtain d g where dg: "draw (f32_neg 0x3F000000) 0x3F000000 (l_rng s) = (d, g)"
    by (cases "draw (f32_neg 0x3F000000) 0x3F000000 (l_rng s)") auto
  have d: "fin_le (- 1) d"
    using dr dg by (auto simp: draws_in_range_def literals dest: spec [of _ "l_rng s"])
  define rr where "rr = f32_add radius (f32_mul (f32_mul (f32_mul d 0x40000000) randomness) radius)"
  have rr: "is_zero rr" unfolding rr_def using d q r by (rule zero_rr)
  have C: "is_finite (cosf (f32_mul (f32_mul u 0x40490FDB) 0x40000000))"
    "is_finite (sinf (f32_mul (f32_mul u 0x40490FDB) 0x40000000))"
    "is_finite (cosf (f32_mul v 0x40490FDB))" "is_finite (sinf (f32_mul v 0x40490FDB))"
    using lib angle_finite [OF uv(1)] angle_finite [OF uv(2)] by (simp_all add: libm_finite_def)
  have nrr: "is_zero (f32_neg rr)" using rr by simp
  have x: "is_zero (f32_mul (f32_mul (f32_neg rr) (cosf (f32_mul (f32_mul u 0x40490FDB) 0x40000000)))
                     (sinf (f32_mul v 0x40490FDB)))"
    by (rule mul_zero(2) [OF C(4) mul_zero(2) [OF C(1) nrr]])
  have y: "is_zero (f32_mul rr (cosf (f32_mul v 0x40490FDB)))"
    by (rule mul_zero(2) [OF C(3) rr])
  have z: "is_zero (f32_mul (f32_mul rr (sinf (f32_mul (f32_mul u 0x40490FDB) 0x40000000)))
                     (sinf (f32_mul v 0x40490FDB)))"
    by (rule mul_zero(2) [OF C(4) mul_zero(2) [OF C(2) rr]])
  show ?thesis
    using s x y z
    by (simp add: place_def zero_locals_def zero3_def dg Let_def rr_def [symmetric])
qed

lemma normalize_zero:
  assumes "zero3 p"
  shows "vec3_normalize (ieee cosf sinf engine draw) p = p"
proof -
  obtain x y z where p: "p = (x, y, z)" by (cases p) auto
  with assms have z: "is_zero x" "is_zero y" "is_zero z" by (simp_all add: zero3_def)
  have "is_zero (f32_add (f32_add (f32_mul x x) (f32_mul y y)) (f32_mul z z))"
    using z by (intro add_zero mul_zero zero_finite)
  then have "\<not> f32_gt (f32_sqrt (f32_add (f32_add (f32_mul x x) (f32_mul y y)) (f32_mul z z))) 0x322BCC77"
    by (simp add: sqrt_zero gt_zero_eps)
  then show ?thesis by (simp add: vec3_normalize_def p Let_def)
qed

lemma vertex_record_zero:
  assumes "zero3 p" "fin_le 31 u" "fin_le 31 v" "fin_le 31 uOffset"
  shows "zero_record (vertex_record (ieee cosf sinf engine draw) v uOffset u p p)"
proof -
  obtain x y z where p: "p = (x, y, z)" by (cases p) auto
  with assms have z: "is_zero x" "is_zero y" "is_zero z" by (simp_all add: zero3_def)
  have "fin_le (31 + 1) (f32_add u uOffset)"
    by (rule add_fin_le [OF assms(2) assms(4)]) simp_all
  then have a: "is_finite (f32_add u uOffset)" by (simp add: fin_le_def)
  have "fin_le 31 0x3F800000" using literal_classes(3) by (rule fin_le_mono) simp
  then have "fin_le (31 + 1) (f32_sub 0x3F800000 v)"
    using assms(3) by (rule sub_fin_le) simp_all
  then have b: "is_finite (f32_sub 0x3F800000 v)" by (simp add: fin_le_def)
  have "is_finite 0x3F800000" using literal_classes(3) by (simp add: fin_le_def)
  then show ?thesis
    using z a b by (simp add: zero_record_def vertex_record_def p zero_finite literals)
qed

lemma uOffset_fin:
  assumes "1 \<le> w" "w \<le> 2 ^ 31"
  shows "fin_le 31 (ring_uOffset (ieee cosf sinf engine draw) w h iy)"
proof -
  have d: "is_finite (f32_of_int (int w))" "1 \<le> f32_mag (f32_of_int (int w))"
    using of_nat_fin [OF assms(2)] of_nat_ge_one [OF assms] by (simp_all add: fin_le_def)
  have "fin_le (- 1) (f32_div 0x3F000000 (f32_of_int (int w)))"
    using literal_classes(2) d by (rule div_fin_le) simp_all
  moreover have "fin_le (- 1) (f32_div (f32_neg 0x3F000000) (f32_of_int (int w)))"
    using _ d by (rule div_fin_le) (simp_all add: literal_classes)
  moreover have "fin_le 31 (0 :: f32)" by (intro zero_fin_le literal_classes)
  ultimately show ?thesis
    by (auto simp: ring_uOffset_def intro: fin_le_mono)
qed

lemma column_zero:
  assumes lib: "libm_finite cosf" "libm_finite sinf" and dr: "draws_in_range draw"
    and q: "is_finite randomness" and r: "is_zero radius"
    and w: "1 \<le> w" "w \<le> 2 ^ 31" and ix: "ix \<le> 2 ^ 31"
    and v: "fin_le 31 v" and uo: "fin_le 31 uOffset"
    and s: "zero_locals s"
  shows "zero_locals (column (ieee cosf sinf engine draw) radius randomness w h iy v uOffset ix s)"
    and "zero_record (pushed (ieee cosf sinf engine draw) radius randomness w h iy v uOffset ix s)"
proof -
  let ?P = "ieee cosf sinf engine draw"
  define u where "u = f32_div (f32_of_int (int ix)) (f32_of_int (int w))"
  have u: "fin_le 31 u" unfolding u_def using ix w by (rule ratio_fin)
  define s1 where "s1 = place ?P radius randomness w h iy v u ix s"
  have s1: "zero_locals s1" unfolding s1_def using lib dr q r u v s by (rule place_zero)
  then have z: "zero3 (l_vertex s1)" by (simp add: zero_locals_def)
  show "zero_locals (column ?P radius randomness w h iy v uOffset ix s)"
    using s1 by (simp add: column_def Let_def zero_locals_def u_def [symmetric] s1_def [symmetric])
  show "zero_record (pushed ?P radius randomness w h iy v uOffset ix s)"
    using vertex_record_zero [OF z u v uo, of cosf sinf engine draw]
    by (simp add: pushed_def Let_def u_def [symmetric] s1_def [symmetric] normalize_zero [OF z])
qed

lemma columns_zero:
  assumes lib: "libm_finite cosf" "libm_finite sinf" and dr: "draws_in_range draw"
    and q: "is_finite randomness" and r: "is_zero radius"
    and w: "1 \<le> w" "w \<le> 2 ^ 31"
    and v: "fin_le 31 v" and uo: "fin_le 31 uOffset"
  shows "zero_locals s \<Longrightarrow> \<forall>ix\<in>set ixs. ix \<le> 2 ^ 31 \<Longrightarrow>
     zero_locals (fold (column (ieee cosf sinf engine draw) radius randomness w h iy v uOffset) ixs s)
     \<and> (\<forall>r\<in>set (column_records (ieee cosf sinf engine draw) radius randomness w h iy v uOffset ixs s).
           zero_record r)"
proof (induction ixs arbitrary: s)
  case Nil
  then show ?case by simp
next
  case (Cons ix ixs)
  then have ix: "ix \<le> 2 ^ 31" by simp
  note c = column_zero [OF lib dr q r w ix v uo Cons.prems(1), where engine = engine and h = h and iy = iy]
  from Cons.IH [OF c(1)] Cons.prems(2) c(2) show ?case by simp
qed

lemma ring_zero:
  assumes lib: "libm_finite cosf" "libm_finite sinf" and dr: "draws_in_range draw"
    and q: "is_finite randomness" and r: "is_zero radius"
    and w: "1 \<le> w" "w \<le> 2 ^ 31" and h: "1 \<le> h" "h \<le> 2 ^ 31" and iy: "iy \<le> h"
    and s: "zero_locals s"
  shows "zero_locals (ring (ieee cosf sinf engine draw) radius randomness w h iy s)"
    and "\<forall>r\<in>set (ring_records (ieee cosf sinf engine draw) radius randomness w h iy s). zero_record r"
proof -
  let ?P = "ieee cosf sinf engine draw"
  have v: "fin_le 31 (ring_v ?P h iy)"
    unfolding ring_v_def ieee_fields using iy h by (intro ratio_fin) simp_all
  have uo: "fin_le 31 (ring_uOffset ?P w h iy)" using w by (rule uOffset_fin)
  have s0: "zero_locals (s\<lparr>l_verticesRow := []\<rparr>)" using s by (simp add: zero_locals_def)
  have ixs: "\<forall>ix\<in>set [0..<Suc w]. ix \<le> 2 ^ 31" using w(2) by auto
  note c = columns_zero [OF lib dr q r w v uo s0 ixs, where engine = engine and h = h and iy = iy]
  from c show "zero_locals (ring ?P radius randomness w h iy s)"
    by (simp add: ring_def Let_def zero_locals_def del: upt_Suc)
  from c show "\<forall>r\<in>set (ring_records ?P radius randomness w h iy s). zero_record r"
    by (simp add: ring_records_def del: upt_Suc)
qed

lemma mesh_zero:
  assumes lib: "libm_finite cosf" "libm_finite sinf" and dr: "draws_in_range draw"
    and q: "is_finite randomness" and r: "is_zero radius"
    and w: "1 \<le> w" "w \<le> 2 ^ 31" and h: "1 \<le> h" "h \<le> 2 ^ 31"
  shows "zero_locals s \<Longrightarrow> \<forall>iy\<in>set iys. iy \<le> h \<Longrightarrow>
     \<forall>R\<in>set (mesh_records (ieee cosf sinf engine draw) radius randomness w h iys s).
       \<forall>r\<in>set R. zero_record r"
proof (induction iys arbitrary: s)
  case Nil
  then show ?case by simp
next
  case (Cons iy iys)
  then have iy: "iy \<le> h" by simp
  note c = ring_zero [OF lib dr q r w h iy Cons.prems(1), where engine = engine]
  from Cons.IH [OF c(1)] Cons.prems(2) c(2) show ?case by simp
qed

lemma init_zero: "zero_locals (init_locals (ieee cosf sinf engine draw))"
  by (simp add: zero_locals_def init_locals_def zero3_def literal_classes)

text \<open>Claim C8.  Degenerate radius: when the radius is a zero and the randomness is finite,
  every vertex of the returned mesh has a position of three zeros with \<^verbatim>\<open>1.0f\<close> as fourth
  float, and a normal of three zeros, since \<^verbatim>\<open>vec3_normalize\<close> leaves a vector alone whose
  length is not above \<^verbatim>\<open>1e-8f\<close>; no float of the vertex array is a NaN or an infinity.
  This holds with binary32 arithmetic, for every C library whose cosine and sine are finite
  on finite arguments and every distribution whose draws lie between \<open>-0.5\<close> and \<open>0.5\<close>.\<close>

theorem zero_radius:
  assumes "libm_finite cosf" and "libm_finite sinf" and "draws_in_range draw"
    and "is_zero radius" and "is_finite randomness"
    and "create (ieee cosf sinf engine draw) radius widthSegments heightSegments randomness = Inr mesh"
    and "iy \<le> nat (clampH heightSegments)" and "ix \<le> nat (clampW widthSegments)"
  shows "zero3 (position (vertices mesh) (vertex_index (nat (clampW widthSegments)) iy ix))
       \<and> float_at (vertices mesh) (vertex_index (nat (clampW widthSegments)) iy ix) 3 = to_f32 1
       \<and> zero3 (normal_of (vertices mesh) (vertex_index (nat (clampW widthSegments)) iy ix))
       \<and> (\<forall>x\<in>set (vertices mesh). is_finite x)"
proof -
  let ?P = "ieee cosf sinf engine draw"
  let ?w = "nat (clampW widthSegments)" and ?h = "nat (clampH heightSegments)"
  define M where "M = mesh_records ?P radius randomness ?w ?h [0..<Suc ?h] (init_locals ?P)"
  have w: "1 \<le> ?w" "?w \<le> 2 ^ 31" and h: "1 \<le> ?h" "?h \<le> 2 ^ 31"
    using clamp_nat(1) [of widthSegments] clamp_nat(2) [of heightSegments]
      clamp_nat_le(1) [of widthSegments] clamp_nat_le(2) [of heightSegments] by simp_all
  have iys: "\<forall>iy\<in>set [0..<Suc ?h]. iy \<le> ?h" by auto
  have good: "\<forall>R\<in>set M. \<forall>r\<in>set R. zero_record r"
    unfolding M_def using assms(1,2,3,5,4) w h init_zero iys by (rule mesh_zero)
  have "M ! iy \<in> set M" using assms(7) by (simp add: M_def)
  moreover have "length (M ! iy) = Suc ?w"
    using mesh_records_ring [OF \<open>M ! iy \<in> set M\<close> [unfolded M_def]] by (simp add: M_def)
  ultimately have "zero_record (M ! iy ! ix)" using good assms(8) by simp
  moreover have "float_at (vertices mesh) (vertex_index ?w iy ix) j = M ! iy ! ix ! j"
    if "j < 9" for j
    unfolding M_def using assms(6,7,8) that by (rule vertices_records(2))
  ultimately have "zero3 (position (vertices mesh) (vertex_index ?w iy ix))
       \<and> float_at (vertices mesh) (vertex_index ?w iy ix) 3 = to_f32 1
       \<and> zero3 (normal_of (vertices mesh) (vertex_index ?w iy ix))"
    by (simp add: zero_record_def position_def normal_of_def zero3_def)
  moreover have "\<forall>x\<in>set (vertices mesh). is_finite x"
    using good vertices_records(1) [OF assms(6)] by (auto simp: M_def zero_record_def)
  ultimately show ?thesis by simp
qed

text \<open>The claim on the reference platform, with four by two segments and randomness
  \<^verbatim>\<open>0.5f\<close>.\<close>

theorem zero_radius_witness:
  "\<exists>mesh. create ref_platform 0 4 2 0x3F000000 = Inr mesh
     \<and> zero3 (position (vertices mesh) (vertex_index 4 1 3))
     \<and> float_at (vertices mesh) (vertex_index 4 1 3) 3 = 0x3F800000
     \<and> zero3 (normal_of (vertices mesh) (vertex_index 4 1 3))
     \<and> (\<forall>x\<in>set (vertices mesh). is_finite x)"
proof -
  have "\<exists>mesh. create ref_platform 0 4 2 0x3F000000 = Inr mesh"
    using fits_4_2 by (rule create_returns)
  then obtain mesh where m: "create ref_platform 0 4 2 0x3F000000 = Inr mesh" by blast
  have z: "is_zero 0" "is_finite 0x3F000000" by (simp_all add: f32_eval)
  have m': "create (ieee cr_cos cr_sin (\<lambda>seed. seed) quarter_draw) 0 4 2 0x3F000000 = Inr mesh"
    using m by (simp only: ref_platform_def)
  have "1 \<le> nat (clampH 2)" "3 \<le> nat (clampW 4)" by (simp_all add: clamp_4_2)
  from zero_radius [OF cr_libm_finite quarter_draw_in_range z m' this]
  show ?thesis using m by (simp add: clamp_4_2 literals)
qed

end
